theory Spec2Isabelle
  imports Main "HOL-Library.Word"
begin

section \<open>The limit order book of \<open>orderbook.hpp\<close>\<close>

text \<open>
  The header defines a fixed-capacity pool of orders (\<open>OrderPool\<close>), a dense ladder of
  price levels with an intrusive FIFO queue per level and a cached best-price index
  (\<open>OrderBookSide\<close>), and the book made of a bid side and an ask side (\<open>OrderBook\<close>).

  Prices, quantities and identifiers are \<open>size_t\<close>, modelled as 64-bit words, so that
  \<open>+=\<close> and \<open>-=\<close> wrap as they do in C++. Array indices (\<open>best_price_index_\<close>, the
  result of \<open>price_to_index\<close>, loop counters) are kept as \<open>nat\<close>: every index the code
  computes is at most \<open>NUM_LEVELS = 401\<close>, so no index computation wraps.

  An \<open>Order*\<close> is the index of a slot of \<open>pool_\<close>, or \<open>None\<close> for \<open>nullptr\<close>. The
  arrays \<open>pool_\<close> and \<open>levels_\<close> are stores from indices to values; only the indices
  below \<open>MAX_ORDERS\<close> and \<open>NUM_LEVELS\<close> belong to the arrays.

  A name that ends in an underscore is not a name of Isabelle, so the fields lose the
  underscore of the source, and take the name of their struct in front where two structs
  share a field name or the name is taken: \<open>order_price\<close>, \<open>order_quantity\<close> and
  \<open>order_next\<close> are \<open>price_\<close>, \<open>quantity_\<close> and \<open>next_\<close> of \<open>Order\<close>;
  \<open>level_price\<close>, \<open>level_first\<close> and \<open>level_last\<close> are \<open>price_\<close>, \<open>first_\<close> and
  \<open>last_\<close> of \<open>PriceLevel\<close>; \<open>side_pool\<close> is \<open>pool_\<close> of \<open>OrderBookSide\<close>.
\<close>

type_synonym size_t = "64 word"
type_synonym ptr = "nat option"

definition MAX_ORDERS :: nat where
  "MAX_ORDERS = 1000"

definition PRICE_MIN :: size_t where
  "PRICE_MIN = 800"

definition PRICE_MAX :: size_t where
  "PRICE_MAX = 1200"

definition TICK_SIZE :: size_t where
  "TICK_SIZE = 1"

definition NUM_LEVELS :: nat where
  "NUM_LEVELS = unat ((PRICE_MAX - PRICE_MIN) div TICK_SIZE + 1)"

record Order =
  order_id :: size_t
  order_price :: size_t
  order_quantity :: size_t
  order_next :: ptr

record Trade =
  taker_order_id :: size_t
  maker_order_id :: size_t
  price :: size_t
  quantity :: size_t

record OrderPool =
  pool :: "nat \<Rightarrow> Order"
  next_free :: ptr

record PriceLevel =
  level_price :: size_t
  total_quantity :: size_t
  level_first :: ptr
  level_last :: ptr

record OrderBookSide =
  levels :: "nat \<Rightarrow> PriceLevel"
  side_pool :: OrderPool
  is_bid :: bool
  best_price_index :: nat

record OrderBook =
  bids :: OrderBookSide
  asks :: OrderBookSide

text \<open>What stops a call: a failed \<open>assert\<close>, and the two places where the code would
  read through a null pointer or past the end of \<open>levels_\<close> (undefined behaviour in C++).\<close>

datatype fault = AssertionFailed | NullDereference | OutOfBounds

subsection \<open>OrderPool\<close>

text \<open>The constructor links slot \<open>i\<close> to slot \<open>i + 1\<close> and the last slot to \<open>nullptr\<close>.
  It leaves the other fields of the slots uninitialised; the model sets them to 0.\<close>

definition OrderPool_init :: OrderPool where
  "OrderPool_init =
     \<lparr>pool = (\<lambda>i. \<lparr>order_id = 0, order_price = 0, order_quantity = 0,
                     order_next = (if i + 1 < MAX_ORDERS then Some (i + 1) else None)\<rparr>),
      next_free = Some 0\<rparr>"

definition allocate :: "OrderPool \<Rightarrow> ptr \<times> OrderPool" where
  "allocate pl =
     (case next_free pl of
        None \<Rightarrow> (None, pl)
      | Some a \<Rightarrow>
          (Some a,
           pl\<lparr>next_free := order_next (pool pl a),
              pool := (pool pl)(a := (pool pl a)\<lparr>order_next := None\<rparr>)\<rparr>))"

definition deallocate :: "OrderPool \<Rightarrow> nat \<Rightarrow> OrderPool" where
  "deallocate pl a =
     pl\<lparr>pool := (pool pl)(a := (pool pl a)\<lparr>order_next := next_free pl\<rparr>),
        next_free := Some a\<rparr>"

subsection \<open>OrderBookSide\<close>

definition OrderBookSide_init :: "bool \<Rightarrow> OrderBookSide" where
  "OrderBookSide_init bid =
     \<lparr>levels = (\<lambda>i. \<lparr>level_price = PRICE_MIN + of_nat i * TICK_SIZE,
                       total_quantity = 0, level_first = None, level_last = None\<rparr>),
      side_pool = OrderPool_init,
      is_bid = bid,
      best_price_index = NUM_LEVELS\<rparr>"

definition price_to_index :: "size_t \<Rightarrow> fault + nat" where
  "price_to_index p =
     (if PRICE_MIN \<le> p \<and> p \<le> PRICE_MAX
      then Inr (unat ((p - PRICE_MIN) div TICK_SIZE))
      else Inl AssertionFailed)"

definition update_best_bid_after_order :: "OrderBookSide \<Rightarrow> nat \<Rightarrow> OrderBookSide" where
  "update_best_bid_after_order s price_idx =
     (if best_price_index s = NUM_LEVELS \<or> price_idx > best_price_index s
      then s\<lparr>best_price_index := price_idx\<rparr> else s)"

definition update_best_ask_after_order :: "OrderBookSide \<Rightarrow> nat \<Rightarrow> OrderBookSide" where
  "update_best_ask_after_order s price_idx =
     (if best_price_index s = NUM_LEVELS \<or> price_idx < best_price_index s
      then s\<lparr>best_price_index := price_idx\<rparr> else s)"

text \<open>\<open>for (size_t i = old_idx; i-- > 0; )\<close>: the body sees \<open>old_idx - 1\<close> down to 0.\<close>

fun scan_down :: "(nat \<Rightarrow> PriceLevel) \<Rightarrow> nat \<Rightarrow> nat" where
  "scan_down lv 0 = NUM_LEVELS"
| "scan_down lv (Suc i) = (if total_quantity (lv i) > 0 then i else scan_down lv i)"

definition update_best_bid_after_empty :: "OrderBookSide \<Rightarrow> nat \<Rightarrow> OrderBookSide" where
  "update_best_bid_after_empty s old_idx =
     s\<lparr>best_price_index := scan_down (levels s) old_idx\<rparr>"

text \<open>\<open>for (size_t i = old_idx + 1; i < NUM_LEVELS; ++i)\<close>.\<close>

function scan_up :: "(nat \<Rightarrow> PriceLevel) \<Rightarrow> nat \<Rightarrow> nat" where
  "scan_up lv i =
     (if i < NUM_LEVELS
      then (if total_quantity (lv i) > 0 then i else scan_up lv (Suc i))
      else NUM_LEVELS)"
  by pat_completeness auto
termination
  by (relation "measure (\<lambda>(lv, i). NUM_LEVELS - i)") auto

declare scan_up.simps [simp del]

definition update_best_ask_after_empty :: "OrderBookSide \<Rightarrow> nat \<Rightarrow> OrderBookSide" where
  "update_best_ask_after_empty s old_idx =
     s\<lparr>best_price_index := scan_up (levels s) (old_idx + 1)\<rparr>"

text \<open>\<open>add_order\<close> returns the new order's slot, or \<open>nullptr\<close> when the pool is exhausted;
  in that case it returns before it has written anything.\<close>

definition add_order ::
  "OrderBookSide \<Rightarrow> size_t \<Rightarrow> size_t \<Rightarrow> size_t \<Rightarrow> fault + (ptr \<times> OrderBookSide)" where
  "add_order s p q oid =
     (case price_to_index p of
        Inl e \<Rightarrow> Inl e
      | Inr idx \<Rightarrow>
          if \<not> idx < NUM_LEVELS then Inl AssertionFailed
          else
            (case allocate (side_pool s) of
               (None, _) \<Rightarrow> Inr (None, s)
             | (Some a, pl) \<Rightarrow>
                 let h = (pool pl)(a := \<lparr>order_id = oid, order_price = p, order_quantity = q, order_next = None\<rparr>);
                     level = levels s idx
                 in (case (case level_first level of
                             None \<Rightarrow> Inr (h, level\<lparr>level_first := Some a, level_last := Some a\<rparr>)
                           | Some _ \<Rightarrow>
                               (case level_last level of
                                  None \<Rightarrow> Inl NullDereference
                                | Some l \<Rightarrow>
                                    Inr (h(l := (h l)\<lparr>order_next := Some a\<rparr>), level\<lparr>level_last := Some a\<rparr>)))
                     of
                       Inl e \<Rightarrow> Inl e
                     | Inr (h', level') \<Rightarrow>
                         let level'' = level'\<lparr>total_quantity := total_quantity level' + q\<rparr>;
                             s' = s\<lparr>levels := (levels s)(idx := level''),
                                    side_pool := pl\<lparr>pool := h'\<rparr>\<rparr>
                         in Inr (Some a,
                                 if is_bid s' then update_best_bid_after_order s' idx
                                 else update_best_ask_after_order s' idx))))"

text \<open>
  The two matching loops of the source, \<open>match_buy\<close> and \<open>match_sell\<close>, are the same text
  but for the crossing test (\<open>level->price_ <= incoming_price\<close> against \<open>>=\<close>) and the
  cursor update called when a level empties (\<open>update_best_ask_after_empty\<close> against
  \<open>update_best_bid_after_empty\<close>). The model writes the loop once, with the flag \<open>buy\<close>
  choosing between the two.

  \<open>fill_step\<close> is one pass through the body of the inner loop, with \<open>maker = level->first_\<close>
  the slot \<open>m\<close> and \<open>level = &levels_[li]\<close>.
\<close>

definition fill_step ::
  "bool \<Rightarrow> nat \<Rightarrow> nat \<Rightarrow> OrderBookSide \<Rightarrow> size_t \<Rightarrow> size_t \<Rightarrow> Trade list
     \<Rightarrow> OrderBookSide \<times> size_t \<times> Trade list" where
  "fill_step buy li m s inq iid ts =
     (let maker = pool (side_pool s) m;
          tq = min (order_quantity maker) inq;
          ts' = ts @ [\<lparr>taker_order_id = iid, maker_order_id = order_id maker,
                       price = order_price maker, quantity = tq\<rparr>];
          maker' = maker\<lparr>order_quantity := order_quantity maker - tq\<rparr>;
          pl1 = (side_pool s)\<lparr>pool := (pool (side_pool s))(m := maker')\<rparr>;
          inq' = inq - tq;
          level = levels s li;
          level1 = level\<lparr>total_quantity := total_quantity level - tq\<rparr>
      in if order_quantity maker' = 0
         then
           let level2 = level1\<lparr>level_first := order_next maker'\<rparr>;
               s2 = s\<lparr>levels := (levels s)(li := level2), side_pool := pl1\<rparr>;
               s3 = (if level_first level2 = None
                     then
                       let s' = s2\<lparr>levels := (levels s2)(li := level2\<lparr>level_last := None\<rparr>)\<rparr>
                       in if buy then update_best_ask_after_empty s' (best_price_index s')
                          else update_best_bid_after_empty s' (best_price_index s')
                     else s2)
           in (s3\<lparr>side_pool := deallocate (side_pool s3) m\<rparr>, inq', ts')
         else (s\<lparr>levels := (levels s)(li := level1), side_pool := pl1\<rparr>, inq', ts'))"

text \<open>The inner loop \<open>while (incoming_quantity > 0 && level->first_)\<close>. It need not end
  on a malformed store (a cyclic queue of zero-quantity orders), so not returning is the
  value \<open>None\<close>.\<close>

partial_function (option) match_level ::
  "bool \<Rightarrow> nat \<Rightarrow> OrderBookSide \<Rightarrow> size_t \<Rightarrow> size_t \<Rightarrow> Trade list
     \<Rightarrow> (OrderBookSide \<times> size_t \<times> Trade list) option" where
  "match_level buy li s inq iid ts =
     (if 0 < inq
      then (case level_first (levels s li) of
              None \<Rightarrow> Some (s, inq, ts)
            | Some m \<Rightarrow>
                (case fill_step buy li m s inq iid ts of
                   (s', inq', ts') \<Rightarrow> match_level buy li s' inq' iid ts'))
      else Some (s, inq, ts))"

text \<open>The outer loop \<open>while (incoming_quantity > 0)\<close>, with its two \<open>break\<close>s.\<close>

partial_function (option) match_orders ::
  "bool \<Rightarrow> OrderBookSide \<Rightarrow> size_t \<Rightarrow> size_t \<Rightarrow> size_t \<Rightarrow> Trade list
     \<Rightarrow> (fault + (OrderBookSide \<times> size_t \<times> Trade list)) option" where
  "match_orders buy s inp inq iid ts =
     (if 0 < inq
      then
        if best_price_index s = NUM_LEVELS then Some (Inr (s, inq, ts))
        else if NUM_LEVELS < best_price_index s then Some (Inl OutOfBounds)
        else if \<not> (if buy then level_price (levels s (best_price_index s)) \<le> inp
                    else level_price (levels s (best_price_index s)) \<ge> inp)
        then Some (Inr (s, inq, ts))
        else
          (case match_level buy (best_price_index s) s inq iid ts of
             None \<Rightarrow> None
           | Some (s', inq', ts') \<Rightarrow> match_orders buy s' inp inq' iid ts')
      else Some (Inr (s, inq, ts)))"

definition match_buy ::
  "OrderBookSide \<Rightarrow> size_t \<Rightarrow> size_t \<Rightarrow> size_t \<Rightarrow> Trade list
     \<Rightarrow> (fault + (OrderBookSide \<times> size_t \<times> Trade list)) option" where
  "match_buy = match_orders True"

definition match_sell ::
  "OrderBookSide \<Rightarrow> size_t \<Rightarrow> size_t \<Rightarrow> size_t \<Rightarrow> Trade list
     \<Rightarrow> (fault + (OrderBookSide \<times> size_t \<times> Trade list)) option" where
  "match_sell = match_orders False"

declare match_level.simps [code] match_orders.simps [code]

subsection \<open>OrderBook\<close>

definition OrderBook_init :: OrderBook where
  "OrderBook_init = \<lparr>bids = OrderBookSide_init True, asks = OrderBookSide_init False\<rparr>"

text \<open>
  \<open>submit_order\<close> returns the book and the trades of the call. When the call stops at a
  fault, the result holds the fault with the book and the trades as they are at that
  moment.
\<close>

definition submit_order ::
  "OrderBook \<Rightarrow> size_t \<Rightarrow> size_t \<Rightarrow> size_t \<Rightarrow> bool
     \<Rightarrow> ((fault \<times> OrderBook \<times> Trade list) + (OrderBook \<times> Trade list)) option" where
  "submit_order b p q oid bid =
     (if q = 0 then Some (Inr (b, []))
      else if bid then
        (case match_buy (asks b) p q oid [] of
           None \<Rightarrow> None
         | Some (Inl e) \<Rightarrow> Some (Inl (e, b, []))
         | Some (Inr (a', remaining, ts)) \<Rightarrow>
             if 0 < remaining then
               (case add_order (bids b) p remaining oid of
                  Inl e \<Rightarrow> Some (Inl (e, b\<lparr>asks := a'\<rparr>, ts))
                | Inr (_, b') \<Rightarrow> Some (Inr (b\<lparr>bids := b', asks := a'\<rparr>, ts)))
             else Some (Inr (b\<lparr>asks := a'\<rparr>, ts)))
      else
        (case match_sell (bids b) p q oid [] of
           None \<Rightarrow> None
         | Some (Inl e) \<Rightarrow> Some (Inl (e, b, []))
         | Some (Inr (b', remaining, ts)) \<Rightarrow>
             if 0 < remaining then
               (case add_order (asks b) p remaining oid of
                  Inl e \<Rightarrow> Some (Inl (e, b\<lparr>bids := b'\<rparr>, ts))
                | Inr (_, a') \<Rightarrow> Some (Inr (b\<lparr>bids := b', asks := a'\<rparr>, ts)))
             else Some (Inr (b\<lparr>bids := b'\<rparr>, ts))))"

subsection \<open>A sequence of submissions\<close>

text \<open>
  The drivers of the repository (\<open>order_test\<close>, \<open>performance_test\<close>) submit orders one
  after the other and append the trades of each call to \<open>all_trades\<close>. A submission is
  the tuple (price, quantity, id, is\_bid).
\<close>

type_synonym submission = "size_t \<times> size_t \<times> size_t \<times> bool"

fun submit_all ::
  "OrderBook \<Rightarrow> Trade list \<Rightarrow> submission list
     \<Rightarrow> ((fault \<times> OrderBook \<times> Trade list) + (OrderBook \<times> Trade list)) option" where
  "submit_all b all_trades [] = Some (Inr (b, all_trades))"
| "submit_all b all_trades ((p, q, oid, bid) # rest) =
     (case submit_order b p q oid bid of
        None \<Rightarrow> None
      | Some (Inl e) \<Rightarrow> Some (Inl e)
      | Some (Inr (b', ts)) \<Rightarrow> submit_all b' (all_trades @ ts) rest)"

subsection \<open>Reading the book\<close>

text \<open>
  \<open>print_side\<close> reads a level's queue with \<open>cur = level.first_\<close> and then
  \<open>cur = cur->next_\<close> while \<open>cur\<close> is not null. \<open>walk\<close> is that traversal, returning
  the slots it visits; it stops after \<open>n\<close> slots, and the pool has \<open>MAX_ORDERS\<close> of them.
\<close>

fun walk :: "nat \<Rightarrow> (nat \<Rightarrow> Order) \<Rightarrow> ptr \<Rightarrow> nat list" where
  "walk 0 h p = []"
| "walk (Suc n) h p = (case p of None \<Rightarrow> [] | Some a \<Rightarrow> a # walk n h (order_next (h a)))"

definition queue :: "OrderBookSide \<Rightarrow> nat \<Rightarrow> nat list" where
  "queue s i = walk MAX_ORDERS (pool (side_pool s)) (level_first (levels s i))"

definition free_slots :: "OrderBookSide \<Rightarrow> nat list" where
  "free_slots s = walk MAX_ORDERS (pool (side_pool s)) (next_free (side_pool s))"

definition level_orders :: "OrderBookSide \<Rightarrow> nat \<Rightarrow> Order list" where
  "level_orders s i = map (pool (side_pool s)) (queue s i)"

text \<open>All the orders that rest on a side, level by level, whatever the aggregates say.\<close>

definition resting :: "OrderBookSide \<Rightarrow> Order list" where
  "resting s = concat (map (level_orders s) [0..<NUM_LEVELS])"

subsection \<open>Well-formed sides\<close>

text \<open>
  \<open>is_queue h p as\<close>: following \<open>next_\<close> from the pointer \<open>p\<close> in the store \<open>h\<close> visits
  exactly the slots \<open>as\<close> and then reaches \<open>nullptr\<close>.

  \<open>level_ok\<close>: the level's \<open>first_\<close> starts the queue \<open>as\<close>, its \<open>last_\<close> is the last
  slot of a non-empty queue, its aggregate is the sum (in \<open>size_t\<close>, so modulo \<open>2^64\<close>) of
  the quantities in the queue, every queued order holds a non-zero quantity and the price
  of the level, and the level's price is the one the constructor gave it.

  \<open>side_abs s qs fl\<close>: the free list of the pool is \<open>fl\<close>, level \<open>i\<close> holds the queue
  \<open>qs i\<close>, the queues and the free list share no slot, every slot is a slot of the pool,
  and the cursor is \<open>NUM_LEVELS\<close> or the index of a level with a non-empty queue.
  \<open>side_ok\<close> says so of the queues and the free list that \<open>walk\<close> reads.
\<close>

fun is_queue :: "(nat \<Rightarrow> Order) \<Rightarrow> ptr \<Rightarrow> nat list \<Rightarrow> bool" where
  "is_queue h p [] = (p = None)"
| "is_queue h p (a # as) = (p = Some a \<and> is_queue h (order_next (h a)) as)"

definition level_ok :: "(nat \<Rightarrow> Order) \<Rightarrow> PriceLevel \<Rightarrow> nat \<Rightarrow> nat list \<Rightarrow> bool" where
  "level_ok h l i as \<longleftrightarrow>
     is_queue h (level_first l) as \<and>
     (as \<noteq> [] \<longrightarrow> level_last l = Some (last as)) \<and>
     total_quantity l = sum_list (map (\<lambda>a. order_quantity (h a)) as) \<and>
     (\<forall>a\<in>set as. a < MAX_ORDERS \<and> order_quantity (h a) \<noteq> 0 \<and> order_price (h a) = level_price l) \<and>
     level_price l = PRICE_MIN + of_nat i * TICK_SIZE"

definition side_abs :: "OrderBookSide \<Rightarrow> (nat \<Rightarrow> nat list) \<Rightarrow> nat list \<Rightarrow> bool" where
  "side_abs s qs fl \<longleftrightarrow>
     is_queue (pool (side_pool s)) (next_free (side_pool s)) fl \<and>
     (\<forall>a\<in>set fl. a < MAX_ORDERS) \<and>
     (best_price_index s = NUM_LEVELS \<or>
      best_price_index s < NUM_LEVELS \<and> qs (best_price_index s) \<noteq> []) \<and>
     (\<forall>i<NUM_LEVELS.
        level_ok (pool (side_pool s)) (levels s i) i (qs i) \<and>
        set (qs i) \<inter> set fl = {} \<and>
        (\<forall>j<NUM_LEVELS. i \<noteq> j \<longrightarrow> set (qs i) \<inter> set (qs j) = {}))"

definition side_ok :: "OrderBookSide \<Rightarrow> bool" where
  "side_ok s \<longleftrightarrow> side_abs s (queue s) (free_slots s)"

definition book_ok :: "OrderBook \<Rightarrow> bool" where
  "book_ok b \<longleftrightarrow> side_ok (bids b) \<and> side_ok (asks b)"

text \<open>
  \<open>maker_of\<close> and \<open>good_trade\<close>: the trade has the incoming id as taker, a non-zero
  quantity, and the id and the price of an order in one of the given queues; \<open>good_trade\<close>
  also says that the price crosses the incoming price. \<open>trades_of\<close> reads the trades of a
  call, whether it returned or stopped at a fault.
\<close>

definition maker_of :: "(nat \<Rightarrow> Order) \<Rightarrow> nat list \<Rightarrow> size_t \<Rightarrow> Trade \<Rightarrow> bool" where
  "maker_of h as iid t \<longleftrightarrow>
     taker_order_id t = iid \<and> quantity t \<noteq> 0 \<and>
     (\<exists>x\<in>set as. maker_order_id t = order_id (h x) \<and> price t = order_price (h x))"

definition good_trade ::
  "(nat \<Rightarrow> Order) \<Rightarrow> (nat \<Rightarrow> nat list) \<Rightarrow> bool \<Rightarrow> size_t \<Rightarrow> size_t \<Rightarrow> Trade \<Rightarrow> bool" where
  "good_trade h qs buy inp iid t \<longleftrightarrow>
     taker_order_id t = iid \<and> quantity t \<noteq> 0 \<and>
     (\<exists>i<NUM_LEVELS. \<exists>x\<in>set (qs i).
        maker_order_id t = order_id (h x) \<and> price t = order_price (h x)) \<and>
     (if buy then price t \<le> inp else inp \<le> price t)"

definition trades_of ::
  "(fault \<times> OrderBook \<times> Trade list) + (OrderBook \<times> Trade list) \<Rightarrow> Trade list" where
  "trades_of r = (case r of Inl (e, b, ts) \<Rightarrow> ts | Inr (b, ts) \<Rightarrow> ts)"

text \<open>
  \<open>no_better_liquidity\<close>: every level that is better than the cursor (higher on the bid
  side, lower on the ask side; every level when the cursor is \<open>NUM_LEVELS\<close>) has aggregate
  0. \<open>book_cursors_ok\<close> says so of both sides, with their \<open>is_bid_\<close> flags.
\<close>

definition no_better_liquidity :: "OrderBookSide \<Rightarrow> bool" where
  "no_better_liquidity s \<longleftrightarrow>
     (\<forall>i<NUM_LEVELS.
        best_price_index s = NUM_LEVELS \<or>
        (if is_bid s then best_price_index s < i else i < best_price_index s)
        \<longrightarrow> total_quantity (levels s i) = 0)"

definition book_cursors_ok :: "OrderBook \<Rightarrow> bool" where
  "book_cursors_ok b \<longleftrightarrow>
     is_bid (bids b) \<and> \<not> is_bid (asks b) \<and>
     no_better_liquidity (bids b) \<and> no_better_liquidity (asks b)"

subsection \<open>Quantities\<close>

text \<open>The quantity traded by a list of trades, as a natural number; the quantity that
  rests on a side, the sum over its queued orders, as a natural number; the sum of the
  aggregates of a side; and what a submission adds to the aggregates of its own side.\<close>

definition trade_volume :: "Trade list \<Rightarrow> nat" where
  "trade_volume ts = sum_list (map (\<lambda>t. unat (quantity t)) ts)"

definition resting_volume :: "OrderBookSide \<Rightarrow> nat" where
  "resting_volume s = sum_list (map (\<lambda>ord. unat (order_quantity ord)) (resting s))"

definition side_total :: "OrderBookSide \<Rightarrow> size_t" where
  "side_total s = (\<Sum>i<NUM_LEVELS. total_quantity (levels s i))"

definition newly_rested :: "OrderBook \<Rightarrow> OrderBook \<Rightarrow> bool \<Rightarrow> size_t" where
  "newly_rested b b' bid =
     (if bid then side_total (bids b') - side_total (bids b)
      else side_total (asks b') - side_total (asks b))"

subsection \<open>Books of the examples\<close>

text \<open>The book after the first, the second and the third submission of \<open>order_test\<close>.\<close>

definition order_test_1 :: OrderBook where
  "order_test_1 =
     \<lparr>bids =
        \<lparr>levels = (levels (OrderBookSide_init True))
           (100 := \<lparr>level_price = 900, total_quantity = 20, level_first = Some 0, level_last = Some 0\<rparr>),
         side_pool =
           \<lparr>pool = (pool OrderPool_init)
              (0 := \<lparr>order_id = 0, order_price = 900, order_quantity = 20, order_next = None\<rparr>),
            next_free = Some 1\<rparr>,
         is_bid = True, best_price_index = 100\<rparr>,
      asks = OrderBookSide_init False\<rparr>"

definition order_test_2 :: OrderBook where
  "order_test_2 =
     \<lparr>bids =
        \<lparr>levels = (levels (OrderBookSide_init True))
           (100 := \<lparr>level_price = 900, total_quantity = 20, level_first = Some 0, level_last = Some 0\<rparr>,
            101 := \<lparr>level_price = 901, total_quantity = 10, level_first = Some 1, level_last = Some 1\<rparr>),
         side_pool =
           \<lparr>pool = (pool OrderPool_init)
              (0 := \<lparr>order_id = 0, order_price = 900, order_quantity = 20, order_next = None\<rparr>,
               1 := \<lparr>order_id = 1, order_price = 901, order_quantity = 10, order_next = None\<rparr>),
            next_free = Some 2\<rparr>,
         is_bid = True, best_price_index = 101\<rparr>,
      asks = OrderBookSide_init False\<rparr>"

definition order_test_3 :: OrderBook where
  "order_test_3 =
     \<lparr>bids =
        \<lparr>levels = (levels (OrderBookSide_init True))
           (100 := \<lparr>level_price = 900, total_quantity = 15, level_first = Some 0, level_last = Some 0\<rparr>,
            101 := \<lparr>level_price = 901, total_quantity = 0, level_first = None, level_last = None\<rparr>),
         side_pool =
           \<lparr>pool = (pool OrderPool_init)
              (0 := \<lparr>order_id = 0, order_price = 900, order_quantity = 15, order_next = None\<rparr>,
               1 := \<lparr>order_id = 1, order_price = 901, order_quantity = 0, order_next = Some 2\<rparr>),
            next_free = Some 1\<rparr>,
         is_bid = True, best_price_index = 100\<rparr>,
      asks = OrderBookSide_init False\<rparr>"

text \<open>The book after the first two submissions of \<open>order_test\<close> and an ask of 15 at 901,
  id 2: it trades 10 with the bid at 901 and rests 5.\<close>

definition partly_rested :: OrderBook where
  "partly_rested =
     \<lparr>bids =
        \<lparr>levels = (levels (OrderBookSide_init True))
           (100 := \<lparr>level_price = 900, total_quantity = 20, level_first = Some 0, level_last = Some 0\<rparr>,
            101 := \<lparr>level_price = 901, total_quantity = 0, level_first = None, level_last = None\<rparr>),
         side_pool =
           \<lparr>pool = (pool OrderPool_init)
              (0 := \<lparr>order_id = 0, order_price = 900, order_quantity = 20, order_next = None\<rparr>,
               1 := \<lparr>order_id = 1, order_price = 901, order_quantity = 0, order_next = Some 2\<rparr>),
            next_free = Some 1\<rparr>,
         is_bid = True, best_price_index = 100\<rparr>,
      asks =
        \<lparr>levels = (levels (OrderBookSide_init False))
           (101 := \<lparr>level_price = 901, total_quantity = 5, level_first = Some 0, level_last = Some 0\<rparr>),
         side_pool =
           \<lparr>pool = (pool OrderPool_init)
              (0 := \<lparr>order_id = 2, order_price = 901, order_quantity = 5, order_next = None\<rparr>),
            next_free = Some 1\<rparr>,
         is_bid = False, best_price_index = 101\<rparr>\<rparr>"

text \<open>The book after two bids at the same price: id 0 for 20, then id 1 for 10, at 900.\<close>

definition two_at_900 :: OrderBook where
  "two_at_900 =
     \<lparr>bids =
        \<lparr>levels = (levels (OrderBookSide_init True))
           (100 := \<lparr>level_price = 900, total_quantity = 30, level_first = Some 0, level_last = Some 1\<rparr>),
         side_pool =
           \<lparr>pool = (pool OrderPool_init)
              (0 := \<lparr>order_id = 0, order_price = 900, order_quantity = 20, order_next = Some 1\<rparr>,
               1 := \<lparr>order_id = 1, order_price = 900, order_quantity = 10, order_next = None\<rparr>),
            next_free = Some 2\<rparr>,
         is_bid = True, best_price_index = 100\<rparr>,
      asks = OrderBookSide_init False\<rparr>"

text \<open>The book after \<open>n\<close> bids of quantity 1 at 900, all with id 0, in closed form; with
  \<open>n = MAX_ORDERS\<close> the pool of the bid side has no free slot. \<open>crowded_book\<close> is that
  book after an ask of 10 at 950, id 8, has come to rest.\<close>

definition bids_at_900 :: "nat \<Rightarrow> OrderBook" where
  "bids_at_900 n =
     \<lparr>bids =
        \<lparr>levels = (levels (OrderBookSide_init True))
           (100 := \<lparr>level_price = 900, total_quantity = of_nat n,
                    level_first = (if n = 0 then None else Some 0),
                    level_last = (if n = 0 then None else Some (n - 1))\<rparr>),
         side_pool =
           \<lparr>pool = (\<lambda>i. if i < n
                         then \<lparr>order_id = 0, order_price = 900, order_quantity = 1,
                               order_next = (if i + 1 < n then Some (i + 1) else None)\<rparr>
                         else pool OrderPool_init i),
            next_free = (if n < MAX_ORDERS then Some n else None)\<rparr>,
         is_bid = True,
         best_price_index = (if n = 0 then NUM_LEVELS else 100)\<rparr>,
      asks = OrderBookSide_init False\<rparr>"

definition crowded_book :: OrderBook where
  "crowded_book =
     (bids_at_900 MAX_ORDERS)
     \<lparr>asks :=
        \<lparr>levels = (levels (OrderBookSide_init False))
           (150 := \<lparr>level_price = 950, total_quantity = 10, level_first = Some 0, level_last = Some 0\<rparr>),
         side_pool =
           \<lparr>pool = (pool OrderPool_init)
              (0 := \<lparr>order_id = 8, order_price = 950, order_quantity = 10, order_next = None\<rparr>),
            next_free = Some 1\<rparr>,
         is_bid = False, best_price_index = 150\<rparr>\<rparr>"

section \<open>Running the code\<close>

text \<open>The loops unfold one iteration at a time, under the test that the source makes.\<close>

lemma NUM_LEVELS_eq: "NUM_LEVELS = 401"
  by (simp add: NUM_LEVELS_def PRICE_MAX_def PRICE_MIN_def TICK_SIZE_def)

lemma match_level_done:
  "inq = 0 \<or> level_first (levels s li) = None \<Longrightarrow> match_level buy li s inq iid ts = Some (s, inq, ts)"
  by (subst match_level.simps) auto

lemma match_level_step:
  "0 < inq \<Longrightarrow> level_first (levels s li) = Some m \<Longrightarrow>
   match_level buy li s inq iid ts =
     (case fill_step buy li m s inq iid ts of (s', inq', ts') \<Rightarrow> match_level buy li s' inq' iid ts')"
  by (subst match_level.simps) simp

lemma match_orders_done:
  "inq = 0 \<Longrightarrow> match_orders buy s inp inq iid ts = Some (Inr (s, inq, ts))"
  by (subst match_orders.simps) simp

lemma match_orders_no_liquidity:
  "best_price_index s = NUM_LEVELS \<Longrightarrow> match_orders buy s inp inq iid ts = Some (Inr (s, inq, ts))"
  by (subst match_orders.simps) simp

lemma match_orders_no_cross:
  "best_price_index s < NUM_LEVELS \<Longrightarrow>
   \<not> (if buy then level_price (levels s (best_price_index s)) \<le> inp
       else inp \<le> level_price (levels s (best_price_index s))) \<Longrightarrow>
   match_orders buy s inp inq iid ts = Some (Inr (s, inq, ts))"
  by (subst match_orders.simps) simp

lemma match_orders_step:
  "0 < inq \<Longrightarrow> best_price_index s < NUM_LEVELS \<Longrightarrow>
   (if buy then level_price (levels s (best_price_index s)) \<le> inp
    else inp \<le> level_price (levels s (best_price_index s))) \<Longrightarrow>
   match_orders buy s inp inq iid ts =
     (case match_level buy (best_price_index s) s inq iid ts of
        None \<Rightarrow> None
      | Some (s', inq', ts') \<Rightarrow> match_orders buy s' inp inq' iid ts')"
  by (subst match_orders.simps) auto

lemma scan_down_numeral:
  "scan_down lv (numeral k) =
     (if total_quantity (lv (pred_numeral k)) > 0 then pred_numeral k
      else scan_down lv (pred_numeral k))"
  by (simp add: numeral_eq_Suc)

lemma walk_None: "walk n h None = []"
  by (cases n) simp_all

lemma walk_numeral:
  "walk (numeral k) h (Some a) = a # walk (pred_numeral k) h (order_next (h a))"
  by (simp add: numeral_eq_Suc)

lemma concat_map_Nil: "(\<And>x. x \<in> set xs \<Longrightarrow> f x = []) \<Longrightarrow> concat (map f xs) = []"
  by (induction xs) simp_all

lemma upt_split: "k < n \<Longrightarrow> [0..<n] = [0..<k] @ k # [Suc k..<n]"
  by (metis le_add1 le_add_same_cancel1 less_imp_add_positive upt_add_eq_append upt_conv_Cons)

lemma concat_map_upt_one:
  assumes "k < n" and "\<And>i. i < n \<Longrightarrow> i \<noteq> k \<Longrightarrow> f i = []"
  shows "concat (map f [0..<n]) = f k"
proof -
  have a: "concat (map f [0..<k]) = []"
    using assms by (auto intro!: concat_map_Nil)
  have b: "concat (map f [Suc k..<n]) = []"
    using assms by (auto intro!: concat_map_Nil)
  show ?thesis
    by (simp only: upt_split [OF assms(1)] map_append concat_append list.map concat.simps a b
        append_Nil append_Nil2)
qed

lemma concat_map_upt_two:
  assumes "k < l" "l < n" and "\<And>i. i < n \<Longrightarrow> i \<noteq> k \<Longrightarrow> i \<noteq> l \<Longrightarrow> f i = []"
  shows "concat (map f [0..<n]) = f k @ f l"
proof -
  have a: "concat (map f [0..<l]) = f k"
    using assms by (intro concat_map_upt_one) auto
  have b: "concat (map f [Suc l..<n]) = []"
    using assms by (auto intro!: concat_map_Nil)
  show ?thesis
    by (simp only: upt_split [OF assms(2)] map_append concat_append list.map concat.simps a b
        append_Nil append_Nil2)
qed

lemma resting_init: "resting (OrderBookSide_init bid) = []"
  by (simp add: resting_def level_orders_def queue_def OrderBookSide_init_def walk_None)

lemmas book_defs = OrderBook_init_def OrderBookSide_init_def OrderPool_init_def MAX_ORDERS_def
  PRICE_MIN_def PRICE_MAX_def TICK_SIZE_def NUM_LEVELS_eq

lemmas step_defs = submit_order_def match_buy_def match_sell_def add_order_def price_to_index_def
  allocate_def deallocate_def fill_step_def update_best_bid_after_order_def
  update_best_ask_after_order_def update_best_bid_after_empty_def update_best_ask_after_empty_def
  match_orders_step match_orders_done match_orders_no_liquidity match_orders_no_cross
  match_level_step match_level_done scan_down_numeral

lemma order_test_step1: "submit_order OrderBook_init 900 20 0 True = Some (Inr (order_test_1, []))"
  by (simp add: step_defs book_defs order_test_1_def)

lemma order_test_step2: "submit_order order_test_1 901 10 1 True = Some (Inr (order_test_2, []))"
  by (simp add: step_defs book_defs order_test_1_def order_test_2_def)

lemma order_test_step3:
  "submit_order order_test_2 900 15 2 False =
     Some (Inr (order_test_3,
       [\<lparr>taker_order_id = 2, maker_order_id = 1, price = 901, quantity = 10\<rparr>,
        \<lparr>taker_order_id = 2, maker_order_id = 0, price = 900, quantity = 5\<rparr>]))"
  by (simp add: step_defs book_defs order_test_2_def order_test_3_def fun_eq_iff)

lemma resting_2: "resting (bids order_test_2) =
     [\<lparr>order_id = 0, order_price = 900, order_quantity = 20, order_next = None\<rparr>,
      \<lparr>order_id = 1, order_price = 901, order_quantity = 10, order_next = None\<rparr>]"
  unfolding resting_def NUM_LEVELS_eq
  by (subst concat_map_upt_two [where k = 100 and l = 101])
     (simp_all add: level_orders_def queue_def order_test_2_def book_defs walk_None walk_numeral)

lemma resting_3: "resting (bids order_test_3) =
     [\<lparr>order_id = 0, order_price = 900, order_quantity = 15, order_next = None\<rparr>]"
  unfolding resting_def NUM_LEVELS_eq
  by (subst concat_map_upt_one [where k = 100])
     (simp_all add: level_orders_def queue_def order_test_3_def book_defs walk_None walk_numeral)

lemma two_at_900_reached:
  "submit_all OrderBook_init [] [(900, 20, 0, True), (900, 10, 1, True)] = Some (Inr (two_at_900, []))"
  by (simp add: step_defs book_defs two_at_900_def fun_eq_iff)

section \<open>Conservation in the matching loops\<close>

lemma trade_volume_simps [simp]:
  "trade_volume [] = 0"
  "trade_volume (ts @ us) = trade_volume ts + trade_volume us"
  "trade_volume [t] = unat (quantity t)"
  by (simp_all add: trade_volume_def)

lemma fill_step_conserves:
  assumes "fill_step buy li m s inq iid ts = (s', inq', ts')"
  shows "\<exists>t. ts' = ts @ [t] \<and> unat inq = unat inq' + unat (quantity t)"
proof -
  define tq where "tq = min (order_quantity (pool (side_pool s) m)) inq"
  have le: "tq \<le> inq"
    by (simp add: tq_def)
  have "inq' = inq - tq"
    and "ts' = ts @ [\<lparr>taker_order_id = iid, maker_order_id = order_id (pool (side_pool s) m),
                       price = order_price (pool (side_pool s) m), quantity = tq\<rparr>]"
    using assms by (auto simp: fill_step_def Let_def tq_def split: if_splits)
  moreover have "unat inq = unat (inq - tq) + unat tq"
    using le by (simp add: unat_sub word_le_nat_alt)
  ultimately show ?thesis
    by simp
qed

lemma match_level_conserves:
  assumes "match_level buy li s inq iid ts = Some r"
  shows "\<exists>new. snd (snd r) = ts @ new \<and> unat inq = unat (fst (snd r)) + trade_volume new"
proof (rule match_level.raw_induct [where P = "\<lambda>buy li s inq iid ts r.
    \<exists>new. snd (snd r) = ts @ new \<and> unat inq = unat (fst (snd r)) + trade_volume new",
    OF _ assms], goal_cases)
  case (1 match_level buy li s inq iid ts r)
  show ?case
  proof (cases "0 < inq \<and> level_first (levels s li) \<noteq> None")
    case False
    with 1(2) show ?thesis
      by (auto split: if_splits option.splits)
  next
    case True
    then obtain m where m: "level_first (levels s li) = Some m"
      by auto
    obtain s1 inq1 ts1 where st: "fill_step buy li m s inq iid ts = (s1, inq1, ts1)"
      by (cases "fill_step buy li m s inq iid ts") auto
    from fill_step_conserves [OF st] obtain t
      where t: "ts1 = ts @ [t]" "unat inq = unat inq1 + unat (quantity t)"
      by auto
    from 1(2) True m st have "match_level buy li s1 inq1 iid ts1 = Some r"
      by simp
    from 1(1) [OF this] obtain new
      where "snd (snd r) = ts1 @ new" "unat inq1 = unat (fst (snd r)) + trade_volume new"
      by auto
    with t show ?thesis
      by (intro exI [of _ "t # new"]) (simp add: trade_volume_def)
  qed
qed

lemma match_orders_conserves_sum:
  assumes "match_orders buy s inp inq iid ts = Some x"
  shows "case x of Inl e \<Rightarrow> True
         | Inr r \<Rightarrow> \<exists>new. snd (snd r) = ts @ new \<and> unat inq = unat (fst (snd r)) + trade_volume new"
proof (rule match_orders.raw_induct [where P = "\<lambda>buy s inp inq iid ts x.
    case x of Inl e \<Rightarrow> True
    | Inr r \<Rightarrow> \<exists>new. snd (snd r) = ts @ new \<and> unat inq = unat (fst (snd r)) + trade_volume new",
    OF _ assms], goal_cases)
  case (1 match_orders buy s inp inq iid ts x)
  show ?case
  proof (cases "match_level buy (best_price_index s) s inq iid ts")
    case None
    with 1(2) show ?thesis
      by (auto split: if_splits)
  next
    case (Some r1)
    obtain s1 inq1 ts1 where r1: "r1 = (s1, inq1, ts1)"
      by (cases r1) auto
    from match_level_conserves [OF Some] r1 obtain new1
      where n1: "ts1 = ts @ new1" "unat inq = unat inq1 + trade_volume new1"
      by auto
    show ?thesis
    proof (cases "match_orders buy s1 inp inq1 iid ts1 = Some x")
      case True
      from 1(1) [OF True] n1 show ?thesis
        by (cases x) auto
    next
      case False
      with 1(2) Some r1 show ?thesis
        by (auto split: if_splits)
    qed
  qed
qed

lemma match_orders_conserves:
  assumes "match_orders buy s inp inq iid ts = Some (Inr (s', inq', ts'))"
  shows "\<exists>new. ts' = ts @ new \<and> unat inq = unat inq' + trade_volume new"
  using match_orders_conserves_sum [OF assms] by simp

section \<open>Adding an order\<close>

lemma price_to_index_in_range:
  assumes "PRICE_MIN \<le> p" "p \<le> PRICE_MAX"
  shows "\<exists>idx. price_to_index p = Inr idx \<and> idx < NUM_LEVELS \<and>
           PRICE_MIN + of_nat idx * TICK_SIZE = p"
proof -
  have "unat (p - 800) = unat p - 800" "unat p \<le> 1200" "800 \<le> unat p"
    using assms by (simp_all add: PRICE_MIN_def PRICE_MAX_def unat_sub word_le_nat_alt)
  then show ?thesis
    using assms by (simp add: price_to_index_def TICK_SIZE_def NUM_LEVELS_eq PRICE_MIN_def)
qed

lemma price_to_index_cases:
  "price_to_index p = Inl AssertionFailed \<and> \<not> (PRICE_MIN \<le> p \<and> p \<le> PRICE_MAX) \<or>
   (\<exists>idx. price_to_index p = Inr idx \<and> idx < NUM_LEVELS \<and> PRICE_MIN \<le> p \<and> p \<le> PRICE_MAX \<and>
      PRICE_MIN + of_nat idx * TICK_SIZE = p)"
  using price_to_index_in_range [of p] by (auto simp: price_to_index_def)

lemma side_total_update:
  assumes "idx < NUM_LEVELS"
  shows "(\<Sum>i<NUM_LEVELS. total_quantity ((lv(idx := l)) i)) =
         (\<Sum>i<NUM_LEVELS. total_quantity (lv i)) - total_quantity (lv idx) + total_quantity l"
proof -
  have "(\<Sum>i<NUM_LEVELS. total_quantity ((lv(idx := l)) i)) =
        total_quantity l + (\<Sum>i\<in>{..<NUM_LEVELS} - {idx}. total_quantity ((lv(idx := l)) i))"
    using assms by (subst sum.remove [of _ idx]) simp_all
  moreover have "(\<Sum>i<NUM_LEVELS. total_quantity (lv i)) =
        total_quantity (lv idx) + (\<Sum>i\<in>{..<NUM_LEVELS} - {idx}. total_quantity (lv i))"
    using assms by (subst sum.remove [of _ idx]) simp_all
  moreover have "(\<Sum>i\<in>{..<NUM_LEVELS} - {idx}. total_quantity ((lv(idx := l)) i)) =
        (\<Sum>i\<in>{..<NUM_LEVELS} - {idx}. total_quantity (lv i))"
    by (rule sum.cong) simp_all
  ultimately show ?thesis
    by simp
qed

lemma add_order_exhausted:
  assumes "next_free (side_pool s) = None" "PRICE_MIN \<le> p" "p \<le> PRICE_MAX"
  shows "add_order s p q oid = Inr (None, s)"
  using price_to_index_in_range [OF assms(2,3)] assms(1)
  by (auto simp: add_order_def allocate_def)

lemma add_order_levels:
  assumes "add_order s p q oid = Inr (Some a, s')"
  shows "\<exists>idx l. idx < NUM_LEVELS \<and> levels s' = (levels s)(idx := l) \<and>
           total_quantity l = total_quantity (levels s idx) + q"
proof -
  from assms obtain idx where idx: "price_to_index p = Inr idx" "idx < NUM_LEVELS"
    by (auto simp: add_order_def split: sum.splits if_splits)
  with assms have "levels s' = (levels s)(idx := levels s' idx) \<and>
      total_quantity (levels s' idx) = total_quantity (levels s idx) + q"
    by (auto simp: add_order_def allocate_def Let_def
        update_best_bid_after_order_def update_best_ask_after_order_def
        split: option.splits if_splits)
  with idx(2) show ?thesis
    by blast
qed

lemma add_order_result:
  assumes "add_order s p q oid = Inr (r, s')"
  shows "(next_free (side_pool s) = None \<and> r = None \<and> s' = s) \<or>
         (next_free (side_pool s) \<noteq> None \<and> r = next_free (side_pool s) \<and>
          side_total s' = side_total s + q)"
proof (cases "next_free (side_pool s)")
  case None
  with assms show ?thesis
    by (auto simp: add_order_def allocate_def split: sum.splits if_splits)
next
  case (Some a)
  with assms have r: "r = Some a"
    by (auto simp: add_order_def allocate_def Let_def split: sum.splits option.splits if_splits)
  from add_order_levels [OF assms [unfolded r]] obtain idx l
    where "idx < NUM_LEVELS" "levels s' = (levels s)(idx := l)"
      "total_quantity l = total_quantity (levels s idx) + q"
    by blast
  then have "side_total s' = side_total s + q"
    by (simp add: side_total_def side_total_update del: fun_upd_apply)
  with r Some show ?thesis
    by simp
qed

section \<open>A full pool\<close>

lemma bids_at_900_0: "bids_at_900 0 = OrderBook_init"
  by (simp add: bids_at_900_def book_defs fun_eq_iff)

lemma bids_at_900_Suc:
  assumes "n < MAX_ORDERS"
  shows "submit_order (bids_at_900 n) 900 1 0 True = Some (Inr (bids_at_900 (Suc n), []))"
proof -
  have m: "match_buy (asks (bids_at_900 n)) 900 1 0 [] = Some (Inr (asks (bids_at_900 n), 1, []))"
    by (simp add: match_buy_def match_orders_no_liquidity bids_at_900_def OrderBookSide_init_def)
  have a: "add_order (bids (bids_at_900 n)) 900 1 0 = Inr (Some n, bids (bids_at_900 (Suc n)))"
    using assms
    by (auto simp: add_order_def price_to_index_def allocate_def bids_at_900_def book_defs Let_def
        update_best_bid_after_order_def fun_eq_iff)
  show ?thesis
    by (simp add: submit_order_def m a) (simp add: bids_at_900_def)
qed

lemma bids_at_900_replicate:
  "k + n \<le> MAX_ORDERS \<Longrightarrow>
   submit_all (bids_at_900 k) ts (replicate n (900, 1, 0, True)) = Some (Inr (bids_at_900 (k + n), ts))"
  by (induction n arbitrary: k) (simp_all add: bids_at_900_Suc)

lemma bids_at_900_reached:
  "submit_all OrderBook_init [] (replicate MAX_ORDERS (900, 1, 0, True)) =
     Some (Inr (bids_at_900 MAX_ORDERS, []))"
  using bids_at_900_replicate [of 0 MAX_ORDERS "[]"] by (simp add: bids_at_900_0)

lemma submit_all_append:
  "submit_all b ts (xs @ ys) =
     (case submit_all b ts xs of
        None \<Rightarrow> None
      | Some (Inl e) \<Rightarrow> Some (Inl e)
      | Some (Inr (b', ts')) \<Rightarrow> submit_all b' ts' ys)"
  by (induction xs arbitrary: b ts) (auto split: option.splits sum.splits)

lemma crowded_book_step:
  "submit_order (bids_at_900 MAX_ORDERS) 950 10 8 False = Some (Inr (crowded_book, []))"
proof -
  have m: "match_sell (bids (bids_at_900 MAX_ORDERS)) 950 10 8 [] =
             Some (Inr (bids (bids_at_900 MAX_ORDERS), 10, []))"
    by (simp add: match_sell_def match_orders_no_cross bids_at_900_def book_defs)
  have a: "add_order (asks (bids_at_900 MAX_ORDERS)) 950 10 8 = Inr (Some 0, asks crowded_book)"
    by (simp add: add_order_def price_to_index_def allocate_def bids_at_900_def book_defs Let_def
        update_best_ask_after_order_def crowded_book_def)
  show ?thesis
    by (simp add: submit_order_def m a) (simp add: crowded_book_def bids_at_900_def)
qed

lemma crowded_book_reached:
  "submit_all OrderBook_init [] (replicate MAX_ORDERS (900, 1, 0, True) @ [(950, 10, 8, False)]) =
     Some (Inr (crowded_book, []))"
  by (simp add: submit_all_append bids_at_900_reached crowded_book_step)

section \<open>Queues in the store\<close>

lemma is_queue_None [simp]: "is_queue h None as \<longleftrightarrow> as = []"
  by (cases as) auto

lemma is_queue_unique: "is_queue h p as \<Longrightarrow> is_queue h p bs \<Longrightarrow> as = bs"
proof (induction as arbitrary: p bs)
  case Nil
  then show ?case by simp
next
  case (Cons a as)
  then show ?case
    by (cases bs) auto
qed

lemma is_queue_cong:
  "(\<And>a. a \<in> set as \<Longrightarrow> order_next (h' a) = order_next (h a)) \<Longrightarrow>
   is_queue h' p as = is_queue h p as"
  by (induction as arbitrary: p) auto

lemma is_queue_suffix: "is_queue h p (as @ b # bs) \<Longrightarrow> is_queue h (order_next (h b)) bs"
  by (induction as arbitrary: p) auto

lemma is_queue_head_notin:
  assumes "is_queue h (order_next (h a)) as"
  shows "a \<notin> set as"
proof
  assume "a \<in> set as"
  then obtain xs ys where as: "as = xs @ a # ys"
    by (auto simp: in_set_conv_decomp)
  with assms have "is_queue h (order_next (h a)) ys"
    by (auto dest: is_queue_suffix)
  with assms have "as = ys"
    by (rule is_queue_unique)
  with as show False
    by simp
qed

lemma is_queue_distinct: "is_queue h p as \<Longrightarrow> distinct as"
  by (induction as arbitrary: p) (auto dest: is_queue_head_notin)

lemma is_queue_snoc:
  assumes "is_queue h p as" "as \<noteq> []" "a \<notin> set as"
    and "order_next (h' (last as)) = Some a" "order_next (h' a) = None"
    and "\<And>x. x \<in> set as \<Longrightarrow> x \<noteq> last as \<Longrightarrow> order_next (h' x) = order_next (h x)"
  shows "is_queue h' p (as @ [a])"
  using assms
proof (induction as arbitrary: p)
  case Nil
  then show ?case by simp
next
  case (Cons x xs)
  from Cons.prems(1) have d: "distinct (x # xs)"
    by (rule is_queue_distinct)
  show ?case
  proof (cases "xs = []")
    case True
    with Cons.prems show ?thesis
      by simp
  next
    case False
    with d have "x \<noteq> last xs"
      by auto
    with Cons.prems False have "order_next (h' x) = order_next (h x)"
      by simp
    moreover have "is_queue h' (order_next (h x)) (xs @ [a])"
      using Cons.prems False by (intro Cons.IH) auto
    ultimately show ?thesis
      using Cons.prems(1) by simp
  qed
qed

lemma walk_is_queue: "is_queue h p as \<Longrightarrow> length as \<le> n \<Longrightarrow> walk n h p = as"
proof (induction n arbitrary: p as)
  case 0
  then show ?case by simp
next
  case (Suc n)
  then show ?case
    by (cases as) auto
qed

lemma distinct_bounded_length:
  assumes "distinct xs" "\<And>x. x \<in> set xs \<Longrightarrow> x < n"
  shows "length xs \<le> n"
proof -
  have "card (set xs) \<le> card {..<n}"
    using assms(2) by (intro card_mono) auto
  with assms(1) show ?thesis
    by (simp add: distinct_card)
qed

lemma level_ok_cong:
  "(\<And>a. a \<in> set as \<Longrightarrow> h' a = h a) \<Longrightarrow> level_ok h' l i as = level_ok h l i as"
  unfolding level_ok_def
  by (simp cong: map_cong add: is_queue_cong [of as h' h])

lemma side_abs_queue:
  assumes "side_abs s qs fl" "i < NUM_LEVELS"
  shows "queue s i = qs i"
proof -
  from assms have q: "is_queue (pool (side_pool s)) (level_first (levels s i)) (qs i)"
    and b: "\<And>a. a \<in> set (qs i) \<Longrightarrow> a < MAX_ORDERS"
    by (auto simp: side_abs_def level_ok_def)
  from is_queue_distinct [OF q] b have "length (qs i) \<le> MAX_ORDERS"
    by (rule distinct_bounded_length)
  with q show ?thesis
    unfolding queue_def by (rule walk_is_queue)
qed

lemma side_abs_free:
  assumes "side_abs s qs fl"
  shows "free_slots s = fl"
proof -
  from assms have q: "is_queue (pool (side_pool s)) (next_free (side_pool s)) fl"
    and b: "\<And>a. a \<in> set fl \<Longrightarrow> a < MAX_ORDERS"
    by (auto simp: side_abs_def)
  from is_queue_distinct [OF q] b have "length fl \<le> MAX_ORDERS"
    by (rule distinct_bounded_length)
  with q show ?thesis
    unfolding free_slots_def by (rule walk_is_queue)
qed

lemma side_abs_cong:
  assumes "side_abs s qs fl" "\<And>i. i < NUM_LEVELS \<Longrightarrow> qs' i = qs i"
  shows "side_abs s qs' fl"
  using assms unfolding side_abs_def by auto

lemma side_abs_ok:
  assumes "side_abs s qs fl"
  shows "side_ok s"
  unfolding side_ok_def side_abs_free [OF assms]
  by (rule side_abs_cong [OF assms]) (simp add: side_abs_queue [OF assms])

lemma init_free_queue:
  "k \<le> MAX_ORDERS \<Longrightarrow>
   is_queue (pool OrderPool_init) (if k < MAX_ORDERS then Some k else None) [k..<MAX_ORDERS]"
proof (induction "MAX_ORDERS - k" arbitrary: k)
  case 0
  then show ?case by simp
next
  case (Suc d)
  then have lt: "k < MAX_ORDERS"
    by simp
  from Suc(1) [of "Suc k"] Suc(2) lt
  have "is_queue (pool OrderPool_init) (if Suc k < MAX_ORDERS then Some (Suc k) else None)
          [Suc k..<MAX_ORDERS]"
    by simp
  moreover have "order_next (pool OrderPool_init k) =
      (if Suc k < MAX_ORDERS then Some (Suc k) else None)"
    by (simp add: OrderPool_init_def)
  ultimately show ?case
    using lt by (subst upt_conv_Cons [OF lt]) simp
qed

lemma MAX_ORDERS_pos: "0 < MAX_ORDERS"
  by (simp add: MAX_ORDERS_def)

lemma side_abs_init: "side_abs (OrderBookSide_init bid) (\<lambda>i. []) [0..<MAX_ORDERS]"
proof -
  have "next_free OrderPool_init = Some 0"
    by (simp add: OrderPool_init_def)
  with init_free_queue [of 0] MAX_ORDERS_pos
  have "is_queue (pool OrderPool_init) (next_free OrderPool_init) [0..<MAX_ORDERS]"
    by simp
  then show ?thesis
    by (simp add: side_abs_def level_ok_def OrderBookSide_init_def)
qed

subsection \<open>The invariant, taken apart\<close>

lemma level_okD:
  assumes "level_ok h l i as"
  shows "is_queue h (level_first l) as"
    and "as \<noteq> [] \<Longrightarrow> level_last l = Some (last as)"
    and "total_quantity l = sum_list (map (\<lambda>a. order_quantity (h a)) as)"
    and "\<And>a. a \<in> set as \<Longrightarrow> a < MAX_ORDERS"
    and "\<And>a. a \<in> set as \<Longrightarrow> order_quantity (h a) \<noteq> 0"
    and "\<And>a. a \<in> set as \<Longrightarrow> order_price (h a) = level_price l"
    and "level_price l = PRICE_MIN + of_nat i * TICK_SIZE"
  using assms by (auto simp: level_ok_def)

lemma side_absD:
  assumes "side_abs s qs fl"
  shows "is_queue (pool (side_pool s)) (next_free (side_pool s)) fl"
    and "\<And>a. a \<in> set fl \<Longrightarrow> a < MAX_ORDERS"
    and "best_price_index s = NUM_LEVELS \<or>
         best_price_index s < NUM_LEVELS \<and> qs (best_price_index s) \<noteq> []"
    and "\<And>i. i < NUM_LEVELS \<Longrightarrow> level_ok (pool (side_pool s)) (levels s i) i (qs i)"
    and "\<And>i. i < NUM_LEVELS \<Longrightarrow> set (qs i) \<inter> set fl = {}"
    and "\<And>i j. i < NUM_LEVELS \<Longrightarrow> j < NUM_LEVELS \<Longrightarrow> i \<noteq> j \<Longrightarrow> set (qs i) \<inter> set (qs j) = {}"
  using assms by (auto simp: side_abs_def)

lemma side_absI:
  assumes "is_queue (pool (side_pool s)) (next_free (side_pool s)) fl"
    and "\<And>a. a \<in> set fl \<Longrightarrow> a < MAX_ORDERS"
    and "best_price_index s = NUM_LEVELS \<or>
         best_price_index s < NUM_LEVELS \<and> qs (best_price_index s) \<noteq> []"
    and "\<And>i. i < NUM_LEVELS \<Longrightarrow> level_ok (pool (side_pool s)) (levels s i) i (qs i)"
    and "\<And>i. i < NUM_LEVELS \<Longrightarrow> set (qs i) \<inter> set fl = {}"
    and "\<And>i j. i < NUM_LEVELS \<Longrightarrow> j < NUM_LEVELS \<Longrightarrow> i \<noteq> j \<Longrightarrow> set (qs i) \<inter> set (qs j) = {}"
  shows "side_abs s qs fl"
  unfolding side_abs_def using assms by blast

subsection \<open>Adding an order keeps the invariant\<close>

lemma add_order_abs:
  assumes inv: "side_abs s qs fl" and q: "q \<noteq> 0"
    and add: "add_order s p q oid = Inr (r, s')"
  shows "\<exists>idx. price_to_index p = Inr idx \<and> idx < NUM_LEVELS \<and>
           (fl = [] \<and> r = None \<and> s' = s \<or>
            (\<exists>a fl'. fl = a # fl' \<and> r = Some a \<and> side_abs s' (qs(idx := qs idx @ [a])) fl' \<and>
               pool (side_pool s') a =
                 \<lparr>order_id = oid, order_price = p, order_quantity = q, order_next = None\<rparr> \<and>
               (\<forall>i<NUM_LEVELS. \<forall>x\<in>set (qs i).
                  order_id (pool (side_pool s') x) = order_id (pool (side_pool s) x) \<and>
                  order_price (pool (side_pool s') x) = order_price (pool (side_pool s) x) \<and>
                  order_quantity (pool (side_pool s') x) = order_quantity (pool (side_pool s) x))))"
proof -
  define h where "h = pool (side_pool s)"
  from add obtain idx where idx: "price_to_index p = Inr idx" "idx < NUM_LEVELS"
    by (auto simp: add_order_def split: sum.splits if_splits)
  with price_to_index_cases [of p] have p: "PRICE_MIN + of_nat idx * TICK_SIZE = p"
    by auto
  note lv = side_absD(4) [OF inv]
  note lvi = level_okD [OF lv [OF idx(2)], folded h_def]
  note fq = side_absD(1) [OF inv, folded h_def]
  show ?thesis
  proof (cases fl)
    case Nil
    with fq have "next_free (side_pool s) = None"
      by simp
    with add idx Nil show ?thesis
      by (auto simp: add_order_def allocate_def)
  next
    case (Cons a fl')
    with fq have nf: "next_free (side_pool s) = Some a"
      and fq': "is_queue h (order_next (h a)) fl'"
      by simp_all
    from is_queue_distinct [OF fq] Cons have a_fl': "a \<notin> set fl'"
      by simp
    have a_qs: "a \<notin> set (qs i)" if "i < NUM_LEVELS" for i
      using side_absD(5) [OF inv that] Cons by auto
    define new where "new = \<lparr>order_id = oid, order_price = p, order_quantity = q, order_next = None\<rparr>"
    define h' where "h' = (if qs idx = [] then h(a := new)
        else (h(a := new))(last (qs idx) := (h (last (qs idx)))\<lparr>order_next := Some a\<rparr>))"
    define L' where "L' = (levels s idx)
        \<lparr>level_first := (if qs idx = [] then Some a else level_first (levels s idx)),
         level_last := Some a,
         total_quantity := total_quantity (levels s idx) + q\<rparr>"
    define c' where "c' = (if best_price_index s = NUM_LEVELS \<or>
        (if is_bid s then best_price_index s < idx else idx < best_price_index s)
        then idx else best_price_index s)"
    have first: "level_first (levels s idx) = None \<longleftrightarrow> qs idx = []"
      using lvi(1) by (cases "qs idx") auto
    have last: "level_last (levels s idx) = Some (last (qs idx))" if "qs idx \<noteq> []"
      using lvi(2) that by simp
    have last_ne: "last (qs idx) \<noteq> a" if "qs idx \<noteq> []"
      using a_qs [OF idx(2)] that last_in_set by metis
    have s': "s' = \<lparr>levels = (levels s)(idx := L'),
                   side_pool = \<lparr>pool = h', next_free = order_next (h a)\<rparr>,
                   is_bid = is_bid s, best_price_index = c'\<rparr>" and r: "r = Some a"
      using add idx nf first last last_ne
      by (auto simp: add_order_def allocate_def Let_def h_def [symmetric] new_def [symmetric]
          h'_def L'_def c'_def update_best_bid_after_order_def update_best_ask_after_order_def
          split: option.splits)
    have h'_a: "h' a = new"
      using last_ne by (cases "qs idx = []") (auto simp: h'_def)
    have h'_last: "h' (last (qs idx)) = (h (last (qs idx)))\<lparr>order_next := Some a\<rparr>" if "qs idx \<noteq> []"
      using last_ne that by (auto simp: h'_def)
    have h'_other: "h' x = h x" if "x \<noteq> a" "qs idx = [] \<or> x \<noteq> last (qs idx)" for x
      using that by (auto simp: h'_def)
    have h'_data: "order_id (h' x) = order_id (h x) \<and> order_price (h' x) = order_price (h x) \<and>
        order_quantity (h' x) = order_quantity (h x)" if "x \<noteq> a" for x
      using that by (auto simp: h'_def)
    have other_level: "last (qs idx) \<notin> set (qs i)" if "i < NUM_LEVELS" "i \<noteq> idx" "qs idx \<noteq> []" for i
      using side_absD(6) [OF inv that(1) idx(2) that(2)] that(3) last_in_set by blast
    have free_last: "last (qs idx) \<notin> set fl'" if "qs idx \<noteq> []"
      using side_absD(5) [OF inv idx(2)] Cons that last_in_set by fastforce
    have "side_abs s' (qs(idx := qs idx @ [a])) fl'"
    proof (rule side_absI)
      have "is_queue h' (order_next (h a)) fl' = is_queue h (order_next (h a)) fl'"
        using a_fl' free_last by (intro is_queue_cong) (metis h'_other)
      with fq' show "is_queue (pool (side_pool s')) (next_free (side_pool s')) fl'"
        by (simp add: s')
      show "x < MAX_ORDERS" if "x \<in> set fl'" for x
        using side_absD(2) [OF inv, of x] that Cons by simp
      show "best_price_index s' = NUM_LEVELS \<or> best_price_index s' < NUM_LEVELS \<and>
            (qs(idx := qs idx @ [a])) (best_price_index s') \<noteq> []"
        using side_absD(3) [OF inv] idx(2) by (auto simp: s' c'_def)
      show "level_ok (pool (side_pool s')) (levels s' i) i ((qs(idx := qs idx @ [a])) i)"
        if i: "i < NUM_LEVELS" for i
      proof (cases "i = idx")
        case False
        have "level_ok h' (levels s i) i (qs i) = level_ok h (levels s i) i (qs i)"
          using a_qs [OF i] other_level [OF i False]
          by (intro level_ok_cong) (metis h'_other)
        with lv [OF i] False show ?thesis
          by (simp add: s' h_def)
      next
        case True
        have q1: "is_queue h' (level_first L') (qs idx @ [a])"
        proof (cases "qs idx = []")
          case True
          then show ?thesis
            by (simp add: L'_def h'_a new_def)
        next
          case False
          have "is_queue h' (level_first (levels s idx)) (qs idx @ [a])"
            using lvi(1) False a_qs [OF idx(2)]
          proof (rule is_queue_snoc)
            show "order_next (h' (last (qs idx))) = Some a"
              using False by (simp add: h'_last)
            show "order_next (h' a) = None"
              by (simp add: h'_a new_def)
            show "order_next (h' x) = order_next (h x)"
              if "x \<in> set (qs idx)" "x \<noteq> last (qs idx)" for x
            proof -
              from that(1) a_qs [OF idx(2)] have "x \<noteq> a"
                by auto
              with that(2) show ?thesis
                by (simp add: h'_other)
            qed
          qed
          with False show ?thesis
            by (simp add: L'_def)
        qed
        have qq: "order_quantity (h' x) = order_quantity (h x)" if "x \<in> set (qs idx)" for x
        proof -
          from that a_qs [OF idx(2)] have "x \<noteq> a"
            by auto
          then show ?thesis
            by (simp add: h'_data)
        qed
        have mq: "map (\<lambda>x. order_quantity (h' x)) (qs idx) = map (\<lambda>x. order_quantity (h x)) (qs idx)"
          by (rule map_cong) (simp_all add: qq)
        have q3: "total_quantity L' = sum_list (map (\<lambda>x. order_quantity (h' x)) (qs idx @ [a]))"
          using lvi(3) by (simp add: L'_def h'_a new_def mq)
        have q4: "x < MAX_ORDERS \<and> order_quantity (h' x) \<noteq> 0 \<and> order_price (h' x) = level_price L'"
          if "x \<in> set (qs idx @ [a])" for x
        proof (cases "x = a")
          case True
          then show ?thesis
            using side_absD(2) [OF inv, of a] Cons q p lvi(7)
            by (simp add: h'_a new_def L'_def)
        next
          case False
          with that lvi(4,5,6) [of x] show ?thesis
            by (simp add: h'_data L'_def)
        qed
        from q1 q3 q4 lvi(7) True show ?thesis
          by (simp add: level_ok_def s' L'_def)
      qed
      show "set ((qs(idx := qs idx @ [a])) i) \<inter> set fl' = {}" if i: "i < NUM_LEVELS" for i
        using side_absD(5) [OF inv i] Cons a_fl' by auto
      show "set ((qs(idx := qs idx @ [a])) i) \<inter> set ((qs(idx := qs idx @ [a])) j) = {}"
        if "i < NUM_LEVELS" "j < NUM_LEVELS" "i \<noteq> j" for i j
        using side_absD(6) [OF inv that] a_qs [OF that(1)] a_qs [OF that(2)] that(3) by auto
    qed
    moreover have "order_id (pool (side_pool s') x) = order_id (pool (side_pool s) x) \<and>
        order_price (pool (side_pool s') x) = order_price (pool (side_pool s) x) \<and>
        order_quantity (pool (side_pool s') x) = order_quantity (pool (side_pool s) x)"
      if "i < NUM_LEVELS" "x \<in> set (qs i)" for i x
    proof -
      from that a_qs have "x \<noteq> a"
        by auto
      then show ?thesis
        using h'_data [of x] by (simp add: s' h_def)
    qed
    moreover have "pool (side_pool s') a = new"
      by (simp add: s' h'_a)
    ultimately show ?thesis
      using idx Cons r unfolding new_def by blast
  qed
qed

subsection \<open>The scans after a level has emptied\<close>

lemma scan_up_cases:
  "scan_up lv i = NUM_LEVELS \<or>
   scan_up lv i < NUM_LEVELS \<and> 0 < total_quantity (lv (scan_up lv i))"
proof (induction lv i rule: scan_up.induct)
  case (1 lv i)
  then show ?case
    by (subst (1 2 3) scan_up.simps) auto
qed

lemma scan_down_cases:
  "i \<le> NUM_LEVELS \<Longrightarrow>
   scan_down lv i = NUM_LEVELS \<or>
   scan_down lv i < NUM_LEVELS \<and> 0 < total_quantity (lv (scan_down lv i))"
  by (induction i) auto

subsection \<open>One pass of the inner loop\<close>

lemma fill_step_partial:
  assumes "inq < order_quantity (pool (side_pool s) m)"
  shows "fill_step buy li m s inq iid ts =
     (s\<lparr>levels := (levels s)(li := (levels s li)
            \<lparr>total_quantity := total_quantity (levels s li) - inq\<rparr>),
        side_pool := (side_pool s)
            \<lparr>pool := (pool (side_pool s))(m := (pool (side_pool s) m)
               \<lparr>order_quantity := order_quantity (pool (side_pool s) m) - inq\<rparr>)\<rparr>\<rparr>,
      0,
      ts @ [\<lparr>taker_order_id = iid, maker_order_id = order_id (pool (side_pool s) m),
              price = order_price (pool (side_pool s) m), quantity = inq\<rparr>])"
proof -
  have "min (order_quantity (pool (side_pool s) m)) inq = inq"
    using assms by (simp add: min_absorb2 less_imp_le)
  moreover have "order_quantity (pool (side_pool s) m) - inq \<noteq> 0"
    using assms by auto
  ultimately show ?thesis
    by (simp add: fill_step_def Let_def)
qed

lemma fill_step_full:
  assumes "order_quantity (pool (side_pool s) m) \<le> inq"
  shows "fill_step buy li m s inq iid ts =
     (let h = pool (side_pool s);
          L' = (levels s li)
            \<lparr>total_quantity := total_quantity (levels s li) - order_quantity (h m),
             level_first := order_next (h m),
             level_last := (if order_next (h m) = None then None else level_last (levels s li))\<rparr>;
          lv' = (levels s)(li := L')
      in (\<lparr>levels = lv',
           side_pool = \<lparr>pool = h(m := (h m)\<lparr>order_quantity := 0, order_next := next_free (side_pool s)\<rparr>),
                        next_free = Some m\<rparr>,
           is_bid = is_bid s,
           best_price_index =
             (if order_next (h m) = None
              then (if buy then scan_up lv' (best_price_index s + 1)
                    else scan_down lv' (best_price_index s))
              else best_price_index s)\<rparr>,
          inq - order_quantity (h m),
          ts @ [\<lparr>taker_order_id = iid, maker_order_id = order_id (h m),
                  price = order_price (h m), quantity = order_quantity (h m)\<rparr>]))"
proof -
  have "min (order_quantity (pool (side_pool s) m)) inq = order_quantity (pool (side_pool s) m)"
    using assms by (simp add: min_def)
  then show ?thesis
    by (simp add: fill_step_def Let_def deallocate_def update_best_ask_after_empty_def
        update_best_bid_after_empty_def)
qed

lemma level_ok_nonempty:
  assumes "level_ok h l i as" "total_quantity l \<noteq> 0"
  shows "as \<noteq> []"
  using assms by (auto simp: level_ok_def)

lemma fill_step_abs:
  assumes inv: "side_abs s qs fl" and li: "li < NUM_LEVELS" and hd: "qs li = m # rest"
    and pos: "0 < inq"
    and step: "fill_step buy li m s inq iid ts = (s', inq', ts')"
  shows "ts' = ts @ [\<lparr>taker_order_id = iid, maker_order_id = order_id (pool (side_pool s) m),
                       price = order_price (pool (side_pool s) m),
                       quantity = min (order_quantity (pool (side_pool s) m)) inq\<rparr>]"
    and "unat inq' < unat inq"
    and "if order_quantity (pool (side_pool s) m) \<le> inq
         then side_abs s' (qs(li := rest)) (m # fl)
         else side_abs s' qs fl \<and> inq' = 0"
    and "\<And>x. order_id (pool (side_pool s') x) = order_id (pool (side_pool s) x) \<and>
             order_price (pool (side_pool s') x) = order_price (pool (side_pool s) x)"
proof -
  define h where "h = pool (side_pool s)"
  note lv = side_absD(4) [OF inv]
  note lvi = level_okD [OF lv [OF li], folded h_def, unfolded hd]
  note fq = side_absD(1) [OF inv, folded h_def]
  have m_rest: "m \<notin> set rest"
    using is_queue_distinct [OF lvi(1)] by simp
  have m_fl: "m \<notin> set fl"
    using side_absD(5) [OF inv li] hd by auto
  have m_other: "m \<notin> set (qs i)" if "i < NUM_LEVELS" "i \<noteq> li" for i
    using side_absD(6) [OF inv li that(1)] that(2) hd by auto
  have qm: "order_quantity (h m) \<noteq> 0"
    using lvi(5) [of m] by simp
  have first: "level_first (levels s li) = Some m" and rq: "is_queue h (order_next (h m)) rest"
    using lvi(1) by simp_all
  have total: "total_quantity (levels s li) =
      order_quantity (h m) + sum_list (map (\<lambda>a. order_quantity (h a)) rest)"
    using lvi(3) by simp
  show "ts' = ts @ [\<lparr>taker_order_id = iid, maker_order_id = order_id (pool (side_pool s) m),
                       price = order_price (pool (side_pool s) m),
                       quantity = min (order_quantity (pool (side_pool s) m)) inq\<rparr>]"
    using step by (auto simp: fill_step_def Let_def split: if_splits)
  have inq': "inq' = inq - min (order_quantity (h m)) inq"
    using step by (auto simp: fill_step_def Let_def h_def split: if_splits)
  have "0 < unat (min (order_quantity (h m)) inq)"
    using qm pos by (simp add: min_def unat_gt_0 word_gt_0)
  moreover have "unat (inq - min (order_quantity (h m)) inq) =
      unat inq - unat (min (order_quantity (h m)) inq)"
    by (rule unat_sub) simp
  moreover have "unat (min (order_quantity (h m)) inq) \<le> unat inq"
    by (simp add: word_le_nat_alt [symmetric])
  ultimately show "unat inq' < unat inq"
    unfolding inq' by simp
  show "order_id (pool (side_pool s') x) = order_id (pool (side_pool s) x) \<and>
        order_price (pool (side_pool s') x) = order_price (pool (side_pool s) x)" for x
    using step by (auto simp: fill_step_def Let_def deallocate_def
        update_best_ask_after_empty_def update_best_bid_after_empty_def split: if_splits)
  show "if order_quantity (pool (side_pool s) m) \<le> inq
         then side_abs s' (qs(li := rest)) (m # fl)
         else side_abs s' qs fl \<and> inq' = 0"
  proof (cases "order_quantity (h m) \<le> inq")
    case False
    then have lt: "inq < order_quantity (pool (side_pool s) m)"
      by (simp add: h_def)
    define h' where "h' = h(m := (h m)\<lparr>order_quantity := order_quantity (h m) - inq\<rparr>)"
    define L' where "L' = (levels s li)\<lparr>total_quantity := total_quantity (levels s li) - inq\<rparr>"
    have s': "s' = s\<lparr>levels := (levels s)(li := L'), side_pool := (side_pool s)\<lparr>pool := h'\<rparr>\<rparr>"
      and z: "inq' = 0"
      using step unfolding fill_step_partial [OF lt] by (simp_all add: h'_def L'_def h_def)
    have nx: "order_next (h' x) = order_next (h x)" for x
      by (simp add: h'_def)
    have same: "h' x = h x" if "x \<noteq> m" for x
      using that by (simp add: h'_def)
    have "side_abs s' qs fl"
    proof (rule side_absI)
      show "is_queue (pool (side_pool s')) (next_free (side_pool s')) fl"
        using fq by (simp add: s' is_queue_cong [of fl h' h, OF nx])
      show "x < MAX_ORDERS" if "x \<in> set fl" for x
        using side_absD(2) [OF inv that] .
      show "best_price_index s' = NUM_LEVELS \<or>
            best_price_index s' < NUM_LEVELS \<and> qs (best_price_index s') \<noteq> []"
        using side_absD(3) [OF inv] by (simp add: s')
      show "set (qs i) \<inter> set fl = {}" if "i < NUM_LEVELS" for i
        using side_absD(5) [OF inv that] .
      show "set (qs i) \<inter> set (qs j) = {}" if "i < NUM_LEVELS" "j < NUM_LEVELS" "i \<noteq> j" for i j
        using side_absD(6) [OF inv that] .
      show "level_ok (pool (side_pool s')) (levels s' i) i (qs i)" if i: "i < NUM_LEVELS" for i
      proof (cases "i = li")
        case False
        have "level_ok h' (levels s i) i (qs i) = level_ok h (levels s i) i (qs i)"
        proof (rule level_ok_cong)
          fix x assume "x \<in> set (qs i)"
          with m_other [OF i False] have "x \<noteq> m"
            by auto
          then show "h' x = h x"
            by (rule same)
        qed
        with lv [OF i] False show ?thesis
          by (simp add: s' h_def)
      next
        case True
        have mr: "map (\<lambda>x. order_quantity (h' x)) rest = map (\<lambda>x. order_quantity (h x)) rest"
        proof (rule map_cong [OF refl])
          fix x assume "x \<in> set rest"
          with m_rest have "x \<noteq> m"
            by auto
          then show "order_quantity (h' x) = order_quantity (h x)"
            by (simp add: same)
        qed
        have q1: "is_queue h' (level_first L') (m # rest)"
          using lvi(1) by (simp add: L'_def is_queue_cong [of _ h' h, OF nx] nx)
        have q3: "total_quantity L' = sum_list (map (\<lambda>x. order_quantity (h' x)) (m # rest))"
          using total by (simp add: L'_def mr) (simp add: h'_def)
        have q4: "x < MAX_ORDERS \<and> order_quantity (h' x) \<noteq> 0 \<and> order_price (h' x) = level_price L'"
          if "x \<in> set (m # rest)" for x
        proof (cases "x = m")
          case True
          with lvi(4,6) [of m] lt show ?thesis
            by (auto simp: h'_def L'_def h_def)
        next
          case False
          with that lvi(4,5,6) [of x] show ?thesis
            by (simp add: same L'_def)
        qed
        from q1 q3 q4 lvi(2,7) True show ?thesis
          by (simp add: level_ok_def s' L'_def hd)
      qed
    qed
    with False z show ?thesis
      by (simp add: h_def)
  next
    case True
    then have le: "order_quantity (pool (side_pool s) m) \<le> inq"
      by (simp add: h_def)
    define h' where "h' = h(m := (h m)\<lparr>order_quantity := 0, order_next := next_free (side_pool s)\<rparr>)"
    define L' where "L' = (levels s li)
            \<lparr>total_quantity := total_quantity (levels s li) - order_quantity (h m),
             level_first := order_next (h m),
             level_last := (if order_next (h m) = None then None else level_last (levels s li))\<rparr>"
    define lv' where "lv' = (levels s)(li := L')"
    define c' where "c' = (if order_next (h m) = None
              then (if buy then scan_up lv' (best_price_index s + 1)
                    else scan_down lv' (best_price_index s))
              else best_price_index s)"
    from step have "s' = fst (fill_step buy li m s inq iid ts)"
      by simp
    then have s': "s' = \<lparr>levels = lv', side_pool = \<lparr>pool = h', next_free = Some m\<rparr>,
                   is_bid = is_bid s, best_price_index = c'\<rparr>"
      unfolding fill_step_full [OF le]
      by (simp add: Let_def h'_def L'_def lv'_def c'_def h_def)
    have same: "h' x = h x" if "x \<noteq> m" for x
      using that by (simp add: h'_def)
    have empty: "order_next (h m) = None \<longleftrightarrow> rest = []"
      using rq by (cases rest) auto
    have levels_ok: "level_ok h' (lv' i) i ((qs(li := rest)) i)" if i: "i < NUM_LEVELS" for i
    proof (cases "i = li")
      case False
      have "level_ok h' (levels s i) i (qs i) = level_ok h (levels s i) i (qs i)"
      proof (rule level_ok_cong)
        fix x assume "x \<in> set (qs i)"
        with m_other [OF i False] have "x \<noteq> m"
          by auto
        then show "h' x = h x"
          by (rule same)
      qed
      with lv [OF i] False show ?thesis
        by (simp add: lv'_def h_def)
    next
      case True
      have eq: "h' x = h x" if "x \<in> set rest" for x
      proof -
        from that m_rest have "x \<noteq> m"
          by auto
        then show ?thesis
          by (rule same)
      qed
      have "level_ok h' L' li rest = level_ok h L' li rest"
        by (rule level_ok_cong) (rule eq)
      moreover have "level_ok h L' li rest"
        using rq lvi(2,4,5,6,7) total empty
        by (auto simp: level_ok_def L'_def)
      ultimately show ?thesis
        using True by (simp add: lv'_def)
    qed
    have "side_abs s' (qs(li := rest)) (m # fl)"
    proof (rule side_absI)
      have "is_queue h' (next_free (side_pool s)) fl = is_queue h (next_free (side_pool s)) fl"
      proof (rule is_queue_cong)
        fix x assume "x \<in> set fl"
        with m_fl have "x \<noteq> m"
          by auto
        then show "order_next (h' x) = order_next (h x)"
          by (simp add: same)
      qed
      with fq show "is_queue (pool (side_pool s')) (next_free (side_pool s')) (m # fl)"
        by (simp add: s') (simp add: h'_def)
      show "x < MAX_ORDERS" if "x \<in> set (m # fl)" for x
        using side_absD(2) [OF inv, of x] lvi(4) [of m] that by auto
      show "level_ok (pool (side_pool s')) (levels s' i) i ((qs(li := rest)) i)"
        if "i < NUM_LEVELS" for i
        using levels_ok [OF that] by (simp add: s')
      show "set ((qs(li := rest)) i) \<inter> set (m # fl) = {}" if i: "i < NUM_LEVELS" for i
      proof (cases "i = li")
        case True
        with side_absD(5) [OF inv li] hd m_rest show ?thesis
          by auto
      next
        case False
        with side_absD(5) [OF inv i] m_other [OF i False] show ?thesis
          by auto
      qed
      show "set ((qs(li := rest)) i) \<inter> set ((qs(li := rest)) j) = {}"
        if "i < NUM_LEVELS" "j < NUM_LEVELS" "i \<noteq> j" for i j
        using side_absD(6) [OF inv that] that(3) hd by (auto split: if_splits)
      show "best_price_index s' = NUM_LEVELS \<or>
            best_price_index s' < NUM_LEVELS \<and> (qs(li := rest)) (best_price_index s') \<noteq> []"
      proof (cases "rest = []")
        case False
        with side_absD(3) [OF inv] empty show ?thesis
          by (auto simp: s' c'_def)
      next
        case True
        have b: "best_price_index s \<le> NUM_LEVELS"
          using side_absD(3) [OF inv] by auto
        have "c' = NUM_LEVELS \<or> c' < NUM_LEVELS \<and> 0 < total_quantity (lv' c')"
          using True empty scan_up_cases [of lv' "best_price_index s + 1"]
            scan_down_cases [OF b, of lv']
          by (auto simp: c'_def)
        then show ?thesis
        proof
          assume "c' = NUM_LEVELS"
          then show ?thesis
            by (simp add: s')
        next
          assume c: "c' < NUM_LEVELS \<and> 0 < total_quantity (lv' c')"
          then have "total_quantity (lv' c') \<noteq> 0"
            by auto
          with levels_ok [of c'] c have "(qs(li := rest)) c' \<noteq> []"
            by (intro level_ok_nonempty) auto
          with c show ?thesis
            by (simp add: s')
        qed
      qed
    qed
    with True show ?thesis
      by (simp add: h_def)
  qed
qed

subsection \<open>The loops return and keep the invariant\<close>

lemma match_level_abs:
  assumes "side_abs s qs fl" "li < NUM_LEVELS"
  shows "\<exists>s' inq' new qs' fl'.
           match_level buy li s inq iid ts = Some (s', inq', ts @ new) \<and>
           side_abs s' qs' fl' \<and>
           unat inq' \<le> unat inq \<and>
           (inq \<noteq> 0 \<and> qs li \<noteq> [] \<longrightarrow> unat inq' < unat inq) \<and>
           (\<forall>i<NUM_LEVELS. set (qs' i) \<subseteq> set (qs i)) \<and>
           (\<forall>x. order_id (pool (side_pool s') x) = order_id (pool (side_pool s) x) \<and>
                order_price (pool (side_pool s') x) = order_price (pool (side_pool s) x)) \<and>
           (\<forall>i. level_price (levels s' i) = level_price (levels s i)) \<and>
           (\<forall>t\<in>set new. maker_of (pool (side_pool s)) (qs li) iid t)"
  using assms
proof (induction xs \<equiv> "qs li" arbitrary: s qs fl inq ts)
  case Nil
  from level_okD(1) [OF side_absD(4) [OF Nil(2,3)]] Nil(1)
  have "level_first (levels s li) = None"
    by simp
  then have "match_level buy li s inq iid ts = Some (s, inq, ts @ [])"
    by (simp add: match_level_done)
  with Nil(1,2) show ?case
    by (intro exI [of _ s] exI [of _ inq] exI [of _ "[]"] exI [of _ qs] exI [of _ fl]) simp
next
  case (Cons m rest)
  note hd = Cons(2) [symmetric]
  note inv = Cons(3) and li = Cons(4)
  show ?case
  proof (cases "inq = 0")
    case True
    then have "match_level buy li s inq iid ts = Some (s, inq, ts @ [])"
      by (simp add: match_level_done)
    with inv True show ?thesis
      by (intro exI [of _ s] exI [of _ inq] exI [of _ "[]"] exI [of _ qs] exI [of _ fl]) simp
  next
    case False
    then have pos: "0 < inq"
      by (simp add: word_gt_0)
    define h where "h = pool (side_pool s)"
    obtain s1 inq1 ts1 where st: "fill_step buy li m s inq iid ts = (s1, inq1, ts1)"
      by (cases "fill_step buy li m s inq iid ts") auto
    define t where "t = \<lparr>taker_order_id = iid, maker_order_id = order_id (h m),
        price = order_price (h m), quantity = min (order_quantity (h m)) inq\<rparr>"
    note fs = fill_step_abs [OF inv li hd pos st, folded h_def]
    have ts1: "ts1 = ts @ [t]"
      using fs(1) by (simp add: t_def)
    have first: "level_first (levels s li) = Some m"
      using level_okD(1) [OF side_absD(4) [OF inv li]] hd by simp
    have unfold: "match_level buy li s inq iid ts = match_level buy li s1 inq1 iid ts1"
      using pos first st by (simp add: match_level_step)
    have qm: "order_quantity (h m) \<noteq> 0"
      using level_okD(5) [OF side_absD(4) [OF inv li], of m] hd by (simp add: h_def)
    have t_ok: "maker_of h (qs li) iid t"
      using qm False hd by (auto simp: maker_of_def t_def min_def)
    have lp: "level_price (levels s1 i) = level_price (levels s i)" for i
      using st by (auto simp: fill_step_def Let_def deallocate_def
        update_best_ask_after_empty_def update_best_bid_after_empty_def split: if_splits)
    show ?thesis
    proof (cases "order_quantity (h m) \<le> inq")
      case False
      with fs(3) have inv1: "side_abs s1 qs fl" and z: "inq1 = 0"
        by simp_all
      from z have "match_level buy li s1 inq1 iid ts1 = Some (s1, inq1, ts @ [t])"
        by (simp add: match_level_done ts1)
      with unfold inv1 fs(2,4) t_ok lp show ?thesis
        by (intro exI [of _ s1] exI [of _ inq1] exI [of _ "[t]"] exI [of _ qs] exI [of _ fl])
           (simp add: h_def)
    next
      case True
      with fs(3) have inv1: "side_abs s1 (qs(li := rest)) (m # fl)"
        by simp
      have "rest = (qs(li := rest)) li"
        by simp
      from Cons(1) [OF this inv1 li, of inq1 ts1]
      obtain s' inq' new qs' fl' where
        r: "match_level buy li s1 inq1 iid ts1 = Some (s', inq', ts1 @ new)"
        and inv': "side_abs s' qs' fl'"
        and le: "unat inq' \<le> unat inq1"
        and sub: "\<forall>i<NUM_LEVELS. set (qs' i) \<subseteq> set ((qs(li := rest)) i)"
        and data: "\<forall>x. order_id (pool (side_pool s') x) = order_id (pool (side_pool s1) x) \<and>
                order_price (pool (side_pool s') x) = order_price (pool (side_pool s1) x)"
        and lp': "\<forall>i. level_price (levels s' i) = level_price (levels s1 i)"
        and mk: "\<forall>t\<in>set new. maker_of (pool (side_pool s1)) ((qs(li := rest)) li) iid t"
        by blast
      have sub': "\<forall>i<NUM_LEVELS. set (qs' i) \<subseteq> set (qs i)"
      proof (intro allI impI)
        fix i assume "i < NUM_LEVELS"
        with sub have "set (qs' i) \<subseteq> set ((qs(li := rest)) i)"
          by blast
        then show "set (qs' i) \<subseteq> set (qs i)"
          using hd by (cases "i = li") auto
      qed
      have mk': "\<forall>t\<in>set (t # new). maker_of h (qs li) iid t"
        using mk t_ok fs(4) hd by (auto simp: maker_of_def)
      from r unfold ts1 have "match_level buy li s inq iid ts = Some (s', inq', ts @ (t # new))"
        by simp
      with inv' le fs(2) sub' data fs(4) lp lp' mk' show ?thesis
        by (intro exI [of _ s'] exI [of _ inq'] exI [of _ "t # new"] exI [of _ qs'] exI [of _ fl'])
           (simp add: h_def)
    qed
  qed
qed

lemma good_trade_mono:
  assumes "good_trade h' qs' buy inp iid t"
    and "\<forall>i<NUM_LEVELS. set (qs' i) \<subseteq> set (qs i)"
    and "\<forall>x. order_id (h' x) = order_id (h x) \<and> order_price (h' x) = order_price (h x)"
  shows "good_trade h qs buy inp iid t"
proof -
  from assms(1) obtain i x where "i < NUM_LEVELS" "x \<in> set (qs' i)"
    "maker_order_id t = order_id (h' x)" "price t = order_price (h' x)"
    by (auto simp: good_trade_def)
  with assms(2,3) have "i < NUM_LEVELS \<and> x \<in> set (qs i) \<and>
    maker_order_id t = order_id (h x) \<and> price t = order_price (h x)"
    by auto
  with assms(1) show ?thesis
    unfolding good_trade_def by blast
qed

lemma match_orders_abs:
  assumes "side_abs s qs fl"
  shows "\<exists>s' inq' new qs' fl'.
           match_orders buy s inp inq iid ts = Some (Inr (s', inq', ts @ new)) \<and>
           side_abs s' qs' fl' \<and>
           (\<forall>i<NUM_LEVELS. set (qs' i) \<subseteq> set (qs i)) \<and>
           (\<forall>x. order_id (pool (side_pool s') x) = order_id (pool (side_pool s) x) \<and>
                order_price (pool (side_pool s') x) = order_price (pool (side_pool s) x)) \<and>
           (\<forall>t\<in>set new. good_trade (pool (side_pool s)) qs buy inp iid t)"
  using assms
proof (induction "unat inq" arbitrary: s qs fl inq ts rule: less_induct)
  case less
  note inv = less(2)
  define li where "li = best_price_index s"
  have stop: ?case if "match_orders buy s inp inq iid ts = Some (Inr (s, inq, ts @ []))"
    using that inv
    by (intro exI [of _ s] exI [of _ inq] exI [of _ "[]"] exI [of _ qs] exI [of _ fl]) simp
  show ?case
  proof (cases "inq = 0 \<or> li = NUM_LEVELS")
    case True
    then show ?thesis
      by (intro stop) (auto simp: match_orders_done match_orders_no_liquidity li_def)
  next
    case False
    then have pos: "0 < inq" and li: "li < NUM_LEVELS" and ne: "qs li \<noteq> []"
      using side_absD(3) [OF inv] by (auto simp: word_gt_0 li_def)
    show ?thesis
    proof (cases "if buy then level_price (levels s li) \<le> inp else inp \<le> level_price (levels s li)")
      case False
      with li have "match_orders buy s inp inq iid ts = Some (Inr (s, inq, ts))"
        unfolding li_def by (rule match_orders_no_cross)
      then show ?thesis
        by (intro stop) simp
    next
      case cross: True
      from match_level_abs [OF inv li, of buy inq iid ts]
      obtain s1 inq1 new1 qs1 fl1 where
        r1: "match_level buy li s inq iid ts = Some (s1, inq1, ts @ new1)"
        and inv1: "side_abs s1 qs1 fl1"
        and lt: "unat inq1 < unat inq"
        and sub1: "\<forall>i<NUM_LEVELS. set (qs1 i) \<subseteq> set (qs i)"
        and data1: "\<forall>x. order_id (pool (side_pool s1) x) = order_id (pool (side_pool s) x) \<and>
                order_price (pool (side_pool s1) x) = order_price (pool (side_pool s) x)"
        and mk1: "\<forall>t\<in>set new1. maker_of (pool (side_pool s)) (qs li) iid t"
        using False ne by blast
      from less(1) [OF lt inv1, of "ts @ new1"]
      obtain s' inq' new2 qs' fl' where
        r2: "match_orders buy s1 inp inq1 iid (ts @ new1) = Some (Inr (s', inq', (ts @ new1) @ new2))"
        and inv': "side_abs s' qs' fl'"
        and sub2: "\<forall>i<NUM_LEVELS. set (qs' i) \<subseteq> set (qs1 i)"
        and data2: "\<forall>x. order_id (pool (side_pool s') x) = order_id (pool (side_pool s1) x) \<and>
                order_price (pool (side_pool s') x) = order_price (pool (side_pool s1) x)"
        and gt2: "\<forall>t\<in>set new2. good_trade (pool (side_pool s1)) qs1 buy inp iid t"
        by blast
      have "match_orders buy s inp inq iid ts =
          (case match_level buy (best_price_index s) s inq iid ts of
             None \<Rightarrow> None
           | Some (s', inq', ts') \<Rightarrow> match_orders buy s' inp inq' iid ts')"
        using pos li cross unfolding li_def by (rule match_orders_step)
      with r1 r2 have unfold:
        "match_orders buy s inp inq iid ts = Some (Inr (s', inq', ts @ (new1 @ new2)))"
        by (simp add: li_def)
      have g1: "good_trade (pool (side_pool s)) qs buy inp iid t" if "t \<in> set new1" for t
      proof -
        from mk1 that obtain x where x: "x \<in> set (qs li)" "taker_order_id t = iid" "quantity t \<noteq> 0"
          "maker_order_id t = order_id (pool (side_pool s) x)"
          "price t = order_price (pool (side_pool s) x)"
          by (auto simp: maker_of_def)
        from level_okD(6) [OF side_absD(4) [OF inv li] x(1)] x(5)
        have "price t = level_price (levels s li)"
          by simp
        with cross x li show ?thesis
          unfolding good_trade_def by auto
      qed
      have g2: "good_trade (pool (side_pool s)) qs buy inp iid t" if "t \<in> set new2" for t
      proof -
        from gt2 that have "good_trade (pool (side_pool s1)) qs1 buy inp iid t"
          by blast
        then show ?thesis
          using sub1 data1 by (rule good_trade_mono)
      qed
      have sub: "\<forall>i<NUM_LEVELS. set (qs' i) \<subseteq> set (qs i)"
        using sub1 sub2 by blast
      have data: "\<forall>x. order_id (pool (side_pool s') x) = order_id (pool (side_pool s) x) \<and>
                order_price (pool (side_pool s') x) = order_price (pool (side_pool s) x)"
        using data1 data2 by simp
      have gt: "\<forall>t\<in>set (new1 @ new2). good_trade (pool (side_pool s)) qs buy inp iid t"
        using g1 g2 by auto
      from unfold inv' sub data gt show ?thesis
        by (intro exI [of _ s'] exI [of _ inq'] exI [of _ "new1 @ new2"] exI [of _ qs']
            exI [of _ fl']) (intro conjI; assumption)
    qed
  qed
qed

subsection \<open>Reachable books\<close>

lemma side_okD: "side_ok s \<Longrightarrow> side_abs s (queue s) (free_slots s)"
  by (simp add: side_ok_def)

lemma book_ok_init: "book_ok OrderBook_init"
  by (simp add: book_ok_def OrderBook_init_def side_abs_ok [OF side_abs_init])

lemma word_ge_1: "1 \<le> (x :: size_t) \<longleftrightarrow> x \<noteq> 0"
  by (metis word_le_0_iff word_less_1 linorder_not_le)

lemma resting_iff:
  "ord \<in> set (resting s) \<longleftrightarrow>
   (\<exists>i<NUM_LEVELS. \<exists>x\<in>set (queue s i). ord = pool (side_pool s) x)"
  by (auto simp: resting_def level_orders_def)

lemma resting_quantity:
  assumes "side_ok s" "ord \<in> set (resting s)"
  shows "1 \<le> order_quantity ord"
proof -
  from assms(2) obtain i x where "i < NUM_LEVELS" "x \<in> set (queue s i)" "ord = pool (side_pool s) x"
    by (auto simp: resting_iff)
  with level_okD(5) [OF side_absD(4) [OF side_okD [OF assms(1)]]] show ?thesis
    by (simp add: word_ge_1)
qed

lemma good_trade_resting:
  assumes "good_trade (pool (side_pool s)) (queue s) buy inp iid t"
  shows "taker_order_id t = iid \<and> 1 \<le> quantity t \<and>
         (\<exists>ord\<in>set (resting s). order_id ord = maker_order_id t \<and> order_price ord = price t) \<and>
         (if buy then price t \<le> inp else inp \<le> price t)"
proof -
  from assms obtain i x where ix: "i < NUM_LEVELS" "x \<in> set (queue s i)"
    "maker_order_id t = order_id (pool (side_pool s) x)"
    "price t = order_price (pool (side_pool s) x)"
    by (auto simp: good_trade_def)
  then have "pool (side_pool s) x \<in> set (resting s)"
    unfolding resting_iff by blast
  with ix(3,4) have "\<exists>ord\<in>set (resting s). order_id ord = maker_order_id t \<and> order_price ord = price t"
    by (intro bexI [of _ "pool (side_pool s) x"]) simp_all
  with assms show ?thesis
    by (simp add: good_trade_def word_ge_1)
qed

lemma match_orders_ok:
  assumes "side_ok s"
  shows "\<exists>s' inq' new.
           match_orders buy s inp inq iid ts = Some (Inr (s', inq', ts @ new)) \<and> side_ok s' \<and>
           (\<forall>t\<in>set new. good_trade (pool (side_pool s)) (queue s) buy inp iid t)"
  using match_orders_abs [OF side_okD [OF assms], of buy inp inq iid ts]
  by (blast intro: side_abs_ok)

lemma add_order_ok:
  assumes "side_ok s" "q \<noteq> 0" "add_order s p q oid = Inr (r, s')"
  shows "side_ok s'"
  using add_order_abs [OF side_okD [OF assms(1)] assms(2,3)] assms(1)
  by (auto intro: side_abs_ok)

lemma submit_order_ok:
  assumes "book_ok b"
  shows "\<exists>r. submit_order b p q oid bid = Some r \<and>
           (\<forall>t\<in>set (trades_of r).
              good_trade (pool (side_pool (if bid then asks b else bids b)))
                (queue (if bid then asks b else bids b)) bid p oid t) \<and>
           (\<forall>b' ts. r = Inr (b', ts) \<longrightarrow> book_ok b')"
proof (cases "q = 0")
  case True
  with assms show ?thesis
    by (simp add: submit_order_def trades_of_def)
next
  case False
  define own where "own = (if bid then bids b else asks b)"
  define opp where "opp = (if bid then asks b else bids b)"
  from assms have ok: "side_ok own" "side_ok opp"
    by (auto simp: book_ok_def own_def opp_def)
  from match_orders_ok [OF ok(2), of bid p q oid "[]"] obtain opp' remaining ts where
    m: "match_orders bid opp p q oid [] = Some (Inr (opp', remaining, ts))"
    and ok': "side_ok opp'"
    and gt: "\<forall>t\<in>set ts. good_trade (pool (side_pool opp)) (queue opp) bid p oid t"
    by auto
  show ?thesis
  proof (cases "remaining = 0")
    case True
    with m False have "submit_order b p q oid bid =
        Some (Inr (if bid then b\<lparr>asks := opp'\<rparr> else b\<lparr>bids := opp'\<rparr>, ts))"
      by (auto simp: submit_order_def match_buy_def match_sell_def opp_def)
    with gt ok ok' show ?thesis
      by (auto simp: trades_of_def book_ok_def own_def opp_def)
  next
    case rem: False
    then have pos: "0 < remaining"
      by (simp add: word_gt_0)
    show ?thesis
    proof (cases "add_order own p remaining oid")
      case (Inl e)
      with m False pos have "submit_order b p q oid bid =
          Some (Inl (e, if bid then b\<lparr>asks := opp'\<rparr> else b\<lparr>bids := opp'\<rparr>, ts))"
        by (auto simp: submit_order_def match_buy_def match_sell_def opp_def own_def)
      with gt show ?thesis
        by (auto simp: trades_of_def opp_def)
    next
      case (Inr x)
      obtain r own' where x: "x = (r, own')"
        by (cases x) auto
      from add_order_ok [OF ok(1) rem Inr [unfolded x]] have ok'': "side_ok own'" .
      from Inr x m False pos have "submit_order b p q oid bid =
          Some (Inr (if bid then b\<lparr>bids := own', asks := opp'\<rparr>
                     else b\<lparr>bids := opp', asks := own'\<rparr>, ts))"
        by (auto simp: submit_order_def match_buy_def match_sell_def opp_def own_def)
      with gt ok' ok'' show ?thesis
        by (auto simp: trades_of_def book_ok_def opp_def)
    qed
  qed
qed

lemma submit_all_ok:
  assumes "book_ok b" "submit_all b ts subs = Some (Inr (b', ts'))"
  shows "book_ok b'"
  using assms
proof (induction subs arbitrary: b ts)
  case Nil
  then show ?case by simp
next
  case (Cons x subs)
  obtain p q oid bid where x: "x = (p, q, oid, bid)"
    by (cases x) auto
  from submit_order_ok [OF Cons(2), of p q oid bid] obtain r where
    r: "submit_order b p q oid bid = Some r" "\<forall>b' ts. r = Inr (b', ts) \<longrightarrow> book_ok b'"
    by blast
  with Cons(3) x obtain b1 ts1 where "r = Inr (b1, ts1)" "submit_all b1 (ts @ ts1) subs = Some (Inr (b', ts'))"
    by (cases r) auto
  with r(2) Cons(1) show ?case
    by blast
qed

lemma order_test_first_two:
  "submit_all OrderBook_init [] [(900, 20, 0, True), (901, 10, 1, True)] =
     Some (Inr (order_test_2, []))"
  by (simp add: order_test_step1 order_test_step2)

text \<open>In a reachable book the aggregate of a level is the sum of the queued quantities
  in \<open>size_t\<close> arithmetic, and \<open>first_\<close> is null exactly when the queue is empty.\<close>

lemma reachable_aggregates:
  assumes "submit_all OrderBook_init [] subs = Some (Inr (b, all_trades))"
    and "s = bids b \<or> s = asks b" and "i < NUM_LEVELS"
  shows "total_quantity (levels s i) = sum_list (map order_quantity (level_orders s i))"
    and "level_first (levels s i) = None \<longleftrightarrow> level_orders s i = []"
proof -
  from submit_all_ok [OF book_ok_init assms(1)] assms(2) have "side_ok s"
    by (auto simp: book_ok_def)
  note lv = level_okD [OF side_absD(4) [OF side_okD [OF this] assms(3)]]
  from lv(3) show "total_quantity (levels s i) = sum_list (map order_quantity (level_orders s i))"
    by (simp add: level_orders_def comp_def)
  from lv(1) show "level_first (levels s i) = None \<longleftrightarrow> level_orders s i = []"
    by (cases "queue s i") (auto simp: level_orders_def)
qed

text \<open>While the true sum of the queued quantities of a level is below \<open>2^64\<close>, the
  aggregate is that sum, and it is 0 exactly when the queue is empty.\<close>

lemma unat_sum_list: "unat (sum_list (xs :: size_t list)) = sum_list (map unat xs) mod 2 ^ 64"
proof (induction xs)
  case Nil
  then show ?case by simp
next
  case (Cons x xs)
  then show ?case
    by (simp add: unat_word_ariths mod_add_right_eq)
qed

lemma reachable_aggregates_exact:
  assumes "submit_all OrderBook_init [] subs = Some (Inr (b, all_trades))"
    and "s = bids b \<or> s = asks b" and "i < NUM_LEVELS"
    and "sum_list (map (\<lambda>ord. unat (order_quantity ord)) (level_orders s i)) < 2 ^ 64"
  shows "unat (total_quantity (levels s i)) =
           sum_list (map (\<lambda>ord. unat (order_quantity ord)) (level_orders s i))"
    and "total_quantity (levels s i) = 0 \<longleftrightarrow> level_first (levels s i) = None"
proof -
  note agg = reachable_aggregates [OF assms(1,2,3)]
  have "unat (total_quantity (levels s i)) =
      sum_list (map unat (map order_quantity (level_orders s i))) mod 2 ^ 64"
    unfolding agg(1) by (rule unat_sum_list)
  with assms(4) show exact: "unat (total_quantity (levels s i)) =
      sum_list (map (\<lambda>ord. unat (order_quantity ord)) (level_orders s i))"
    by (simp add: comp_def)
  show "total_quantity (levels s i) = 0 \<longleftrightarrow> level_first (levels s i) = None"
  proof (cases "level_orders s i")
    case Nil
    with agg show ?thesis
      by simp
  next
    case (Cons ord rest)
    then have "ord \<in> set (level_orders s i)"
      by simp
    with assms(3) have "ord \<in> set (resting s)"
      unfolding resting_def by (auto intro!: bexI [of _ i])
    moreover from submit_all_ok [OF book_ok_init assms(1)] assms(2) have "side_ok s"
      by (auto simp: book_ok_def)
    ultimately have "1 \<le> order_quantity ord"
      by (intro resting_quantity)
    then have "0 < unat (order_quantity ord)"
      by (simp add: word_ge_1 unat_gt_0)
    with exact Cons have "unat (total_quantity (levels s i)) \<noteq> 0"
      by simp
    then have "total_quantity (levels s i) \<noteq> 0"
      by (simp add: unat_eq_0)
    with agg(2) Cons show ?thesis
      by simp
  qed
qed

subsection \<open>The cursor and the aggregates\<close>

lemma scan_up_skips:
  "j \<le> i \<Longrightarrow> i < NUM_LEVELS \<Longrightarrow> scan_up lv j = NUM_LEVELS \<or> i < scan_up lv j \<Longrightarrow>
   total_quantity (lv i) = 0"
proof (induction lv j rule: scan_up.induct)
  case (1 lv j)
  show ?case
  proof (cases "0 < total_quantity (lv j)")
    case True
    with 1(2,3,4) show ?thesis
      by (subst (asm) (1 2) scan_up.simps) (auto split: if_splits)
  next
    case False
    then have z: "total_quantity (lv j) = 0"
      by (simp add: word_gt_0)
    show ?thesis
    proof (cases "i = j")
      case True
      with z show ?thesis by simp
    next
      case ne: False
      from 1(2,3) have lt: "j < NUM_LEVELS"
        by simp
      have eq: "scan_up lv j = scan_up lv (Suc j)"
        using lt False by (subst scan_up.simps) simp
      from 1(2) ne have "Suc j \<le> i"
        by simp
      from 1(1) [OF lt False this 1(3)] 1(4) show ?thesis
        by (simp add: eq)
    qed
  qed
qed

lemma scan_down_skips:
  "i < j \<Longrightarrow> j \<le> NUM_LEVELS \<Longrightarrow> scan_down lv j = NUM_LEVELS \<or> scan_down lv j < i \<Longrightarrow>
   total_quantity (lv i) = 0"
proof (induction j)
  case 0
  then show ?case by simp
next
  case (Suc j)
  show ?case
  proof (cases "0 < total_quantity (lv j)")
    case True
    with Suc.prems show ?thesis
      by auto
  next
    case False
    then have z: "total_quantity (lv j) = 0"
      by (simp add: word_gt_0)
    show ?thesis
    proof (cases "i = j")
      case True
      with z show ?thesis by simp
    next
      case ne: False
      with Suc.prems False show ?thesis
        by (intro Suc.IH) auto
    qed
  qed
qed

lemma no_betterD:
  assumes "no_better_liquidity s" "i < NUM_LEVELS"
    and "best_price_index s = NUM_LEVELS \<or>
         (if is_bid s then best_price_index s < i else i < best_price_index s)"
  shows "total_quantity (levels s i) = 0"
  using assms unfolding no_better_liquidity_def by blast

lemma no_better_init: "no_better_liquidity (OrderBookSide_init bid)"
  by (simp add: no_better_liquidity_def OrderBookSide_init_def)

lemma add_order_cursor:
  assumes "no_better_liquidity s" "add_order s p q oid = Inr (r, s')"
  shows "no_better_liquidity s' \<and> is_bid s' = is_bid s"
proof (cases r)
  case None
  with assms(2) have "s' = s"
    by (auto simp: add_order_def allocate_def Let_def split: sum.splits option.splits if_splits)
  with assms(1) show ?thesis
    by simp
next
  case (Some a)
  from assms(2) obtain idx where idx: "price_to_index p = Inr idx" "idx < NUM_LEVELS"
    by (auto simp: add_order_def split: sum.splits if_splits)
  with assms(2) Some have shape: "\<forall>i. i \<noteq> idx \<longrightarrow> levels s' i = levels s i" "is_bid s' = is_bid s"
    "best_price_index s' =
       (if best_price_index s = NUM_LEVELS \<or>
           (if is_bid s then best_price_index s < idx else idx < best_price_index s)
        then idx else best_price_index s)"
    by (auto simp: add_order_def allocate_def Let_def
        update_best_bid_after_order_def update_best_ask_after_order_def
        split: option.splits if_splits)
  have "total_quantity (levels s' i) = 0"
    if "i < NUM_LEVELS" "best_price_index s' = NUM_LEVELS \<or>
      (if is_bid s' then best_price_index s' < i else i < best_price_index s')" for i
  proof -
    from that idx(2) shape(2,3) have "i \<noteq> idx" and
      "best_price_index s = NUM_LEVELS \<or>
        (if is_bid s then best_price_index s < i else i < best_price_index s)"
      by (auto split: if_splits)
    from no_betterD [OF assms(1) that(1) this(2)] shape(1) \<open>i \<noteq> idx\<close> show ?thesis
      by simp
  qed
  with shape(2) show ?thesis
    by (simp add: no_better_liquidity_def)
qed

lemma fill_step_cursor:
  assumes inv: "side_abs s qs fl" and li: "li < NUM_LEVELS" and hd: "qs li = m # rest"
    and at: "best_price_index s = li" and dir: "buy = (\<not> is_bid s)"
    and nb: "no_better_liquidity s"
    and step: "fill_step buy li m s inq iid ts = (s', inq', ts')"
  shows "no_better_liquidity s'" and "is_bid s' = is_bid s"
    and "order_quantity (pool (side_pool s) m) \<le> inq \<and> rest \<noteq> [] \<longrightarrow> best_price_index s' = li"
proof -
  define h where "h = pool (side_pool s)"
  note lvi = level_okD [OF side_absD(4) [OF inv li], folded h_def, unfolded hd]
  have rq: "is_queue h (order_next (h m)) rest"
    using lvi(1) by simp
  have empty: "order_next (h m) = None \<longleftrightarrow> rest = []"
    using rq by (cases rest) auto
  have flag: "is_bid s' = is_bid s"
    using step by (auto simp: fill_step_def Let_def deallocate_def
        update_best_ask_after_empty_def update_best_bid_after_empty_def split: if_splits)
  then show "is_bid s' = is_bid s" .
  have other: "levels s' i = levels s i" if "i \<noteq> li" for i
    using step that by (auto simp: fill_step_def Let_def deallocate_def
        update_best_ask_after_empty_def update_best_bid_after_empty_def split: if_splits)
  show "order_quantity (pool (side_pool s) m) \<le> inq \<and> rest \<noteq> [] \<longrightarrow> best_price_index s' = li"
    using step empty at unfolding h_def
    by (auto simp: fill_step_full Let_def)
  show "no_better_liquidity s'"
  proof (cases "order_quantity (h m) \<le> inq \<and> rest = []")
    case False
    then have "best_price_index s' = li"
      using step empty at unfolding h_def
      by (cases "order_quantity (pool (side_pool s) m) \<le> inq")
         (auto simp: fill_step_full fill_step_partial Let_def not_le)
    with nb at flag other li show ?thesis
      by (auto simp: no_better_liquidity_def)
  next
    case True
    then have le: "order_quantity (pool (side_pool s) m) \<le> inq" and nx: "order_next (h m) = None"
      using empty by (simp_all add: h_def)
    define lv' where "lv' = levels s'"
    from step have s'_eq: "s' = fst (fill_step buy li m s inq iid ts)"
      by simp
    have cur: "best_price_index s' =
        (if buy then scan_up lv' (li + 1) else scan_down lv' li)"
      and tot: "total_quantity (lv' li) = 0"
      using nx lvi(3) True at unfolding lv'_def s'_eq fill_step_full [OF le]
      by (simp_all add: Let_def h_def)
    have "total_quantity (lv' i) = 0"
      if i: "i < NUM_LEVELS" and b: "best_price_index s' = NUM_LEVELS \<or>
        (if is_bid s' then best_price_index s' < i else i < best_price_index s')" for i
    proof (cases "i = li")
      case True
      with tot show ?thesis by simp
    next
      case ne: False
      show ?thesis
      proof (cases "if is_bid s then li < i else i < li")
        case True
        with at have "best_price_index s = NUM_LEVELS \<or>
            (if is_bid s then best_price_index s < i else i < best_price_index s)"
          by simp
        from no_betterD [OF nb i this] have "total_quantity (levels s i) = 0" .
        with other [OF ne] show ?thesis
          by (simp add: lv'_def)
      next
        case False
        show ?thesis
        proof (cases buy)
          case True
          with dir False ne have "li + 1 \<le> i"
            by simp
          moreover from b True dir flag cur
          have "scan_up lv' (li + 1) = NUM_LEVELS \<or> i < scan_up lv' (li + 1)"
            by auto
          ultimately show ?thesis
            using i by (intro scan_up_skips [of "li + 1"]) auto
        next
          case nbuy: False
          with dir False ne have "i < li"
            by simp
          moreover from b nbuy dir flag cur
          have "scan_down lv' li = NUM_LEVELS \<or> scan_down lv' li < i"
            by auto
          ultimately show ?thesis
            using li by (intro scan_down_skips [of i li]) auto
        qed
      qed
    qed
    then show ?thesis
      by (simp add: no_better_liquidity_def lv'_def)
  qed
qed

lemma match_level_cursor:
  assumes "side_abs s qs fl" "li < NUM_LEVELS"
    and "qs li \<noteq> [] \<longrightarrow> best_price_index s = li"
    and "buy = (\<not> is_bid s)" "no_better_liquidity s"
    and "match_level buy li s inq iid ts = Some (s', inq', ts')"
  shows "no_better_liquidity s' \<and> is_bid s' = is_bid s"
  using assms
proof (induction xs \<equiv> "qs li" arbitrary: s qs fl inq ts)
  case Nil
  from level_okD(1) [OF side_absD(4) [OF Nil(2,3)]] Nil(1)
  have "level_first (levels s li) = None"
    by simp
  with Nil(7) have "s' = s"
    by (simp add: match_level_done)
  with Nil(6) show ?case
    by simp
next
  case (Cons m rest)
  note hd = Cons(2) [symmetric]
  note inv = Cons(3) and li = Cons(4)
  from Cons(5) hd have at: "best_price_index s = li"
    by simp
  show ?case
  proof (cases "inq = 0")
    case True
    with Cons(8) have "s' = s"
      by (simp add: match_level_done)
    with Cons(7) show ?thesis
      by simp
  next
    case False
    then have pos: "0 < inq"
      by (simp add: word_gt_0)
    obtain s1 inq1 ts1 where st: "fill_step buy li m s inq iid ts = (s1, inq1, ts1)"
      by (cases "fill_step buy li m s inq iid ts") auto
    note fs = fill_step_abs [OF inv li hd pos st]
    note fc = fill_step_cursor [OF inv li hd at Cons(6,7) st]
    have first: "level_first (levels s li) = Some m"
      using level_okD(1) [OF side_absD(4) [OF inv li]] hd by simp
    have unfold: "match_level buy li s1 inq1 iid ts1 = Some (s', inq', ts')"
      using pos first st Cons(8) by (simp add: match_level_step)
    show ?thesis
    proof (cases "order_quantity (pool (side_pool s) m) \<le> inq")
      case False
      with fs(3) have "inq1 = 0"
        by simp
      with unfold have "s' = s1"
        by (simp add: match_level_done)
      with fc show ?thesis
        by simp
    next
      case True
      with fs(3) have inv1: "side_abs s1 (qs(li := rest)) (m # fl)"
        by simp
      have r: "rest = (qs(li := rest)) li"
        by simp
      have c1: "(qs(li := rest)) li \<noteq> [] \<longrightarrow> best_price_index s1 = li"
        using fc(3) True by simp
      have d1: "buy = (\<not> is_bid s1)"
        using Cons(6) fc(2) by simp
      from Cons(1) [OF r inv1 li c1 d1 fc(1) unfold] fc(2) show ?thesis
        by simp
    qed
  qed
qed

lemma match_orders_cursor:
  assumes "side_abs s qs fl" "buy = (\<not> is_bid s)" "no_better_liquidity s"
    and "match_orders buy s inp inq iid ts = Some (Inr (s', inq', ts'))"
  shows "no_better_liquidity s' \<and> is_bid s' = is_bid s"
  using assms
proof (induction "unat inq" arbitrary: s qs fl inq ts rule: less_induct)
  case less
  note inv = less(2)
  define li where "li = best_price_index s"
  show ?case
  proof (cases "inq = 0 \<or> li = NUM_LEVELS")
    case True
    with less(5) have "s' = s"
      by (auto simp: match_orders_done match_orders_no_liquidity li_def)
    with less(4) show ?thesis
      by simp
  next
    case False
    then have pos: "0 < inq" and li: "li < NUM_LEVELS" and ne: "qs li \<noteq> []"
      using side_absD(3) [OF inv] by (auto simp: word_gt_0 li_def)
    show ?thesis
    proof (cases "if buy then level_price (levels s li) \<le> inp else inp \<le> level_price (levels s li)")
      case False
      with li have "match_orders buy s inp inq iid ts = Some (Inr (s, inq, ts))"
        unfolding li_def by (rule match_orders_no_cross)
      with less(5) have "s' = s"
        by simp
      with less(4) show ?thesis
        by simp
    next
      case cross: True
      from match_level_abs [OF inv li, of buy inq iid ts]
      obtain s1 inq1 new1 qs1 fl1 where
        r1: "match_level buy li s inq iid ts = Some (s1, inq1, ts @ new1)"
        and inv1: "side_abs s1 qs1 fl1"
        and lt: "unat inq1 < unat inq"
        using False ne by blast
      have c: "qs li \<noteq> [] \<longrightarrow> best_price_index s = li"
        by (simp add: li_def)
      note mc = match_level_cursor [OF inv li c less(3,4) r1]
      have "match_orders buy s inp inq iid ts =
          (case match_level buy (best_price_index s) s inq iid ts of
             None \<Rightarrow> None
           | Some (s', inq', ts') \<Rightarrow> match_orders buy s' inp inq' iid ts')"
        using pos li cross unfolding li_def by (rule match_orders_step)
      with r1 less(5) have r2: "match_orders buy s1 inp inq1 iid (ts @ new1) = Some (Inr (s', inq', ts'))"
        by (simp add: li_def)
      have d1: "buy = (\<not> is_bid s1)"
        using less(3) mc by simp
      from less(1) [OF lt inv1 d1 _ r2] mc show ?thesis
        by simp
    qed
  qed
qed

lemma book_cursors_init: "book_cursors_ok OrderBook_init"
  by (simp add: book_cursors_ok_def OrderBook_init_def no_better_init)
     (simp add: OrderBookSide_init_def)

lemma submit_order_cursors:
  assumes "book_ok b" "book_cursors_ok b" "submit_order b p q oid bid = Some (Inr (b', ts))"
  shows "book_cursors_ok b'"
proof (cases "q = 0")
  case True
  with assms show ?thesis
    by (simp add: submit_order_def)
next
  case False
  define own where "own = (if bid then bids b else asks b)"
  define opp where "opp = (if bid then asks b else bids b)"
  from assms(1) have ok: "side_ok opp"
    by (auto simp: book_ok_def opp_def)
  from assms(2) have own_flag: "is_bid own \<longleftrightarrow> bid" and opp_flag: "is_bid opp \<longleftrightarrow> \<not> bid"
    and nb: "no_better_liquidity own" "no_better_liquidity opp"
    by (auto simp: book_cursors_ok_def own_def opp_def)
  from opp_flag have dir: "bid = (\<not> is_bid opp)"
    by simp
  from assms(3) False obtain opp' remaining
    where m: "match_orders bid opp p q oid [] = Some (Inr (opp', remaining, ts))"
    by (auto simp: submit_order_def match_buy_def match_sell_def opp_def
        split: option.splits sum.splits if_splits)
  from match_orders_cursor [OF side_okD [OF ok] dir nb(2) m] opp_flag
  have opp': "no_better_liquidity opp'" "is_bid opp' \<longleftrightarrow> \<not> bid"
    by simp_all
  have "\<exists>own'. no_better_liquidity own' \<and> (is_bid own' \<longleftrightarrow> bid) \<and>
      b' = (if bid then \<lparr>bids = own', asks = opp'\<rparr> else \<lparr>bids = opp', asks = own'\<rparr>)"
  proof (cases "remaining = 0")
    case True
    with assms(3) False m have "b' = (if bid then b\<lparr>asks := opp'\<rparr> else b\<lparr>bids := opp'\<rparr>)"
      by (auto simp: submit_order_def match_buy_def match_sell_def opp_def)
    then have "b' = (if bid then \<lparr>bids = own, asks = opp'\<rparr> else \<lparr>bids = opp', asks = own\<rparr>)"
      by (simp add: own_def)
    with nb(1) own_flag show ?thesis
      by blast
  next
    case rem: False
    then have "0 < remaining"
      by (simp add: word_gt_0)
    with assms(3) False m obtain r own' where a: "add_order own p remaining oid = Inr (r, own')"
      and b': "b' = (if bid then b\<lparr>bids := own', asks := opp'\<rparr> else b\<lparr>bids := opp', asks := own'\<rparr>)"
      by (auto simp: submit_order_def match_buy_def match_sell_def opp_def own_def
          split: option.splits sum.splits if_splits)
    from add_order_cursor [OF nb(1) a] own_flag
    have "no_better_liquidity own'" "is_bid own' \<longleftrightarrow> bid"
      by simp_all
    moreover from b' have "b' = (if bid then \<lparr>bids = own', asks = opp'\<rparr>
        else \<lparr>bids = opp', asks = own'\<rparr>)"
      by simp
    ultimately show ?thesis
      by blast
  qed
  then obtain own' where "no_better_liquidity own'" "is_bid own' \<longleftrightarrow> bid"
    "b' = (if bid then \<lparr>bids = own', asks = opp'\<rparr> else \<lparr>bids = opp', asks = own'\<rparr>)"
    by blast
  with opp' show ?thesis
    by (cases bid) (simp_all add: book_cursors_ok_def)
qed

lemma submit_all_cursors:
  assumes "book_ok b" "book_cursors_ok b" "submit_all b ts subs = Some (Inr (b', ts'))"
  shows "book_cursors_ok b'"
  using assms
proof (induction subs arbitrary: b ts)
  case Nil
  then show ?case by simp
next
  case (Cons x subs)
  obtain p q oid bid where x: "x = (p, q, oid, bid)"
    by (cases x) auto
  from submit_order_ok [OF Cons(2), of p q oid bid] obtain r where
    r: "submit_order b p q oid bid = Some r" "\<forall>b' ts. r = Inr (b', ts) \<longrightarrow> book_ok b'"
    by blast
  with Cons(4) x obtain b1 ts1 where b1: "r = Inr (b1, ts1)"
    "submit_all b1 (ts @ ts1) subs = Some (Inr (b', ts'))"
    by (cases r) auto
  from submit_order_cursors [OF Cons(2,3) r(1) [unfolded b1(1)]] r(2) b1 Cons(1) show ?case
    by blast
qed

lemma reachable_cursor:
  assumes "submit_all OrderBook_init [] subs = Some (Inr (b, all_trades))"
    and "s = bids b \<or> s = asks b"
  shows "best_price_index s = NUM_LEVELS \<and> (\<forall>i<NUM_LEVELS. total_quantity (levels s i) = 0) \<or>
         best_price_index s < NUM_LEVELS \<and>
         level_first (levels s (best_price_index s)) \<noteq> None \<and>
         (\<forall>i<NUM_LEVELS. total_quantity (levels s i) \<noteq> 0 \<longrightarrow>
            (if is_bid s then i \<le> best_price_index s else best_price_index s \<le> i))"
proof -
  from submit_all_ok [OF book_ok_init assms(1)] have ok: "book_ok b" .
  from submit_all_cursors [OF book_ok_init book_cursors_init assms(1)] assms(2)
  have nb: "no_better_liquidity s"
    by (auto simp: book_cursors_ok_def)
  from ok assms(2) have "side_ok s"
    by (auto simp: book_ok_def)
  note inv = side_okD [OF this]
  show ?thesis
  proof (cases "best_price_index s = NUM_LEVELS")
    case True
    with nb show ?thesis
      by (auto simp: no_better_liquidity_def)
  next
    case False
    with side_absD(3) [OF inv] have lt: "best_price_index s < NUM_LEVELS"
      and ne: "queue s (best_price_index s) \<noteq> []"
      by auto
    from level_okD(1) [OF side_absD(4) [OF inv lt]] ne
    have "level_first (levels s (best_price_index s)) \<noteq> None"
      by (cases "queue s (best_price_index s)") auto
    moreover have "if is_bid s then i \<le> best_price_index s else best_price_index s \<le> i"
      if "i < NUM_LEVELS" "total_quantity (levels s i) \<noteq> 0" for i
    proof (rule ccontr)
      assume "\<not> (if is_bid s then i \<le> best_price_index s else best_price_index s \<le> i)"
      then have "best_price_index s = NUM_LEVELS \<or>
          (if is_bid s then best_price_index s < i else i < best_price_index s)"
        by (auto split: if_splits)
      from no_betterD [OF nb that(1) this] that(2) show False
        by simp
    qed
    ultimately show ?thesis
      using lt by blast
  qed
qed

subsection \<open>What an added order adds to the queues\<close>

lemma partly_rested_step:
  "submit_order order_test_2 901 15 2 False =
     Some (Inr (partly_rested,
       [\<lparr>taker_order_id = 2, maker_order_id = 1, price = 901, quantity = 10\<rparr>]))"
  by (simp add: step_defs book_defs order_test_2_def partly_rested_def fun_eq_iff)

lemma sum_list_concat_map:
  "sum_list (map f (concat (map g xs))) = sum_list (map (\<lambda>x. sum_list (map f (g x))) xs)"
  by (induction xs) simp_all

lemma resting_volume_levels:
  "resting_volume s =
     (\<Sum>i<NUM_LEVELS. sum_list (map (\<lambda>x. unat (order_quantity (pool (side_pool s) x))) (queue s i)))"
  by (simp add: resting_volume_def resting_def sum_list_concat_map level_orders_def comp_def
      interv_sum_list_conv_sum_set_nat atLeast0LessThan)

lemma add_order_volume:
  assumes ok: "side_ok s" and q: "q \<noteq> 0" and add: "add_order s p q oid = Inr (Some a, s')"
  shows "resting_volume s' = resting_volume s + unat q"
    and "\<lparr>order_id = oid, order_price = p, order_quantity = q, order_next = None\<rparr> \<in> set (resting s')"
proof -
  note inv = side_okD [OF ok]
  from add_order_abs [OF inv q add] obtain idx fl' where
    idx: "idx < NUM_LEVELS"
    and inv': "side_abs s' ((queue s)(idx := queue s idx @ [a])) fl'"
    and new: "pool (side_pool s') a =
        \<lparr>order_id = oid, order_price = p, order_quantity = q, order_next = None\<rparr>"
    and same: "\<forall>i<NUM_LEVELS. \<forall>x\<in>set (queue s i).
        order_id (pool (side_pool s') x) = order_id (pool (side_pool s) x) \<and>
        order_price (pool (side_pool s') x) = order_price (pool (side_pool s) x) \<and>
        order_quantity (pool (side_pool s') x) = order_quantity (pool (side_pool s) x)"
    by auto
  define f where "f = (\<lambda>i. sum_list (map (\<lambda>x. unat (order_quantity (pool (side_pool s) x))) (queue s i)))"
  define f' where "f' = (\<lambda>i. sum_list (map (\<lambda>x. unat (order_quantity (pool (side_pool s') x))) (queue s' i)))"
  have q': "queue s' i = ((queue s)(idx := queue s idx @ [a])) i" if "i < NUM_LEVELS" for i
    using side_abs_queue [OF inv' that] .
  have old: "map (\<lambda>x. unat (order_quantity (pool (side_pool s') x))) (queue s i) =
      map (\<lambda>x. unat (order_quantity (pool (side_pool s) x))) (queue s i)" if "i < NUM_LEVELS" for i
    by (rule map_cong [OF refl]) (use same that in simp)
  have other: "f' i = f i" if "i < NUM_LEVELS" "i \<noteq> idx" for i
  proof -
    from q' [OF that(1)] that(2) have "queue s' i = queue s i"
      by simp
    then show ?thesis
      unfolding f_def f'_def by (simp only: old [OF that(1)])
  qed
  have at: "f' idx = f idx + unat q"
  proof -
    from q' [OF idx] have "queue s' idx = queue s idx @ [a]"
      by simp
    then have "f' idx =
        sum_list (map (\<lambda>x. unat (order_quantity (pool (side_pool s') x))) (queue s idx)) +
        unat (order_quantity (pool (side_pool s') a))"
      unfolding f'_def by simp
    then show ?thesis
      unfolding f_def by (simp only: old [OF idx] new) simp
  qed
  have "(\<Sum>i<NUM_LEVELS. f' i) = f' idx + (\<Sum>i\<in>{..<NUM_LEVELS} - {idx}. f' i)"
    using idx by (subst sum.remove [of _ idx]) simp_all
  also have "(\<Sum>i\<in>{..<NUM_LEVELS} - {idx}. f' i) = (\<Sum>i\<in>{..<NUM_LEVELS} - {idx}. f i)"
    by (rule sum.cong) (simp_all add: other)
  finally have "(\<Sum>i<NUM_LEVELS. f' i) = (f idx + (\<Sum>i\<in>{..<NUM_LEVELS} - {idx}. f i)) + unat q"
    by (simp add: at)
  also have "f idx + (\<Sum>i\<in>{..<NUM_LEVELS} - {idx}. f i) = (\<Sum>i<NUM_LEVELS. f i)"
    using idx by (subst (2) sum.remove [of _ idx]) simp_all
  finally show "resting_volume s' = resting_volume s + unat q"
    by (simp add: resting_volume_levels f_def f'_def)
  have "a \<in> set (queue s' idx)"
    using q' [OF idx] by simp
  with idx new show "\<lparr>order_id = oid, order_price = p, order_quantity = q, order_next = None\<rparr>
      \<in> set (resting s')"
    unfolding resting_iff by (metis)
qed

lemma resting_partly: "resting (asks partly_rested) =
     [\<lparr>order_id = 2, order_price = 901, order_quantity = 5, order_next = None\<rparr>]"
  unfolding resting_def NUM_LEVELS_eq
  by (subst concat_map_upt_one [where k = 101])
     (simp_all add: level_orders_def queue_def partly_rested_def book_defs walk_None walk_numeral)

lemma crowded_book_bid:
  "submit_order crowded_book 950 15 9 True =
     Some (Inr (crowded_book\<lparr>asks := fst (fill_step True 150 0 (asks crowded_book) 15 9 [])\<rparr>,
                [\<lparr>taker_order_id = 9, maker_order_id = 8, price = 950, quantity = 10\<rparr>]))"
proof -
  have m: "match_buy (asks crowded_book) 950 15 9 [] =
      Some (Inr (fst (fill_step True 150 0 (asks crowded_book) 15 9 []), 5,
                 [\<lparr>taker_order_id = 9, maker_order_id = 8, price = 950, quantity = 10\<rparr>]))"
    by (simp add: step_defs crowded_book_def book_defs scan_up.simps)
  have a: "add_order (bids crowded_book) 950 5 9 = Inr (None, bids crowded_book)"
    by (rule add_order_exhausted)
       (simp_all add: crowded_book_def bids_at_900_def PRICE_MIN_def PRICE_MAX_def)
  show ?thesis
    by (simp add: submit_order_def m a)
qed


section \<open>A zero-quantity submission\<close>

text \<open>
  C8. For every book, price, identifier and side, \<open>submit_order\<close> with quantity 0 returns
  with no trades and with the book it was given: both sides, with their ladders, pools and
  cursors, are unchanged.
\<close>

theorem submit_order_zero_quantity:
  "submit_order b p 0 oid bid = Some (Inr (b, []))"
  by (simp add: submit_order_def)

section \<open>The scenario of \<open>order_test\<close>\<close>

text \<open>
  C9. From the empty book, bid(900, 20, id 0) and bid(901, 10, id 1) produce no trades and
  leave two resting bids, 20 at 900 and 10 at 901, with the bid cursor at the level of
  901 and nothing on the ask side. Then ask(900, 15, id 2) produces the trades
  (taker 2, maker 1, price 901, quantity 10) and (taker 2, maker 0, price 900, quantity 5),
  in that order; afterwards the only resting order is bid id 0 with quantity 15 at 900.
\<close>

theorem order_test_scenario:
  "submit_order OrderBook_init 900 20 0 True = Some (Inr (order_test_1, [])) \<and>
   submit_order order_test_1 901 10 1 True = Some (Inr (order_test_2, [])) \<and>
   resting (bids order_test_2) =
     [\<lparr>order_id = 0, order_price = 900, order_quantity = 20, order_next = None\<rparr>,
      \<lparr>order_id = 1, order_price = 901, order_quantity = 10, order_next = None\<rparr>] \<and>
   total_quantity (levels (bids order_test_2) 100) = 20 \<and>
   total_quantity (levels (bids order_test_2) 101) = 10 \<and>
   best_price_index (bids order_test_2) = 101 \<and>
   level_price (levels (bids order_test_2) 101) = 901 \<and>
   resting (asks order_test_2) = [] \<and>
   submit_order order_test_2 900 15 2 False =
     Some (Inr (order_test_3,
       [\<lparr>taker_order_id = 2, maker_order_id = 1, price = 901, quantity = 10\<rparr>,
        \<lparr>taker_order_id = 2, maker_order_id = 0, price = 900, quantity = 5\<rparr>])) \<and>
   resting (bids order_test_3) =
     [\<lparr>order_id = 0, order_price = 900, order_quantity = 15, order_next = None\<rparr>] \<and>
   level_price (levels (bids order_test_3) 100) = 900 \<and>
   resting (asks order_test_3) = []"
proof -
  have asks_empty: "resting (asks order_test_2) = []" "resting (asks order_test_3) = []"
    by (simp_all add: order_test_2_def order_test_3_def resting_init)
  have fields:
    "total_quantity (levels (bids order_test_2) 100) = 20"
    "total_quantity (levels (bids order_test_2) 101) = 10"
    "best_price_index (bids order_test_2) = 101"
    "level_price (levels (bids order_test_2) 101) = 901"
    "level_price (levels (bids order_test_3) 100) = 900"
    by (simp_all add: order_test_2_def order_test_3_def)
  show ?thesis
    by (simp add: order_test_step1 order_test_step2 order_test_step3 resting_2 resting_3
        asks_empty fields)
qed

section \<open>Price-time priority\<close>



section \<open>Conservation of quantity\<close>

text \<open>
  C1, as the spec states it, fails when the remainder is dropped. On the book that
  \<open>MAX_ORDERS\<close> bids of 1 at 900 lead to (\<open>bids_at_900_reached\<close>), whose bid pool is full, a
  bid of 5 at 900 returns with no trades and rests nothing, and 5 is not 0 + 0. On that
  book with an ask of 10 resting at 950 (\<open>crowded_book_reached\<close>), a bid of 15 at 950 trades
  10 and rests nothing, and 15 is not 10 + 0, whether the rested quantity is read from the
  aggregates or from the queues.
\<close>

theorem conservation_fails_when_dropped:
  "submit_order (bids_at_900 MAX_ORDERS) 900 5 7 True = Some (Inr (bids_at_900 MAX_ORDERS, [])) \<and>
   unat (5 :: size_t) \<noteq>
     trade_volume [] + unat (newly_rested (bids_at_900 MAX_ORDERS) (bids_at_900 MAX_ORDERS) True) \<and>
   submit_order crowded_book 950 15 9 True =
     Some (Inr (crowded_book\<lparr>asks := fst (fill_step True 150 0 (asks crowded_book) 15 9 [])\<rparr>,
                [\<lparr>taker_order_id = 9, maker_order_id = 8, price = 950, quantity = 10\<rparr>])) \<and>
   unat (15 :: size_t) \<noteq>
     trade_volume [\<lparr>taker_order_id = 9, maker_order_id = 8, price = 950, quantity = 10\<rparr>] +
     unat (newly_rested crowded_book
            (crowded_book\<lparr>asks := fst (fill_step True 150 0 (asks crowded_book) 15 9 [])\<rparr>) True) \<and>
   unat (15 :: size_t) + resting_volume (bids crowded_book) \<noteq>
     trade_volume [\<lparr>taker_order_id = 9, maker_order_id = 8, price = 950, quantity = 10\<rparr>] +
     resting_volume
       (bids (crowded_book\<lparr>asks := fst (fill_step True 150 0 (asks crowded_book) 15 9 [])\<rparr>))"
proof -
  have m: "match_buy (asks (bids_at_900 MAX_ORDERS)) 900 5 7 [] =
             Some (Inr (asks (bids_at_900 MAX_ORDERS), 5, []))"
    by (simp add: match_buy_def match_orders_no_liquidity bids_at_900_def OrderBookSide_init_def)
  have a: "add_order (bids (bids_at_900 MAX_ORDERS)) 900 5 7 = Inr (None, bids (bids_at_900 MAX_ORDERS))"
    by (rule add_order_exhausted) (simp_all add: bids_at_900_def PRICE_MIN_def PRICE_MAX_def)
  have full: "submit_order (bids_at_900 MAX_ORDERS) 900 5 7 True =
      Some (Inr (bids_at_900 MAX_ORDERS, []))"
    by (simp add: submit_order_def m a)
  show ?thesis
    by (simp add: full crowded_book_bid newly_rested_def)
qed

text \<open>
  C1, amended. For every submission that returns, one of two things holds. Either the
  incoming quantity is the sum of the trade quantities plus the quantity newly rested on the
  submitter's side (0 when the order is fully filled, also on a full pool); in a book
  reached from the empty book that is so of the quantities of the queued orders, and a
  non-zero rested quantity is the quantity of an order with the submitted id and price in
  a queue of that side. Or the pool of the submitter's side has no free slot, the sum of
  the trade quantities is less than the incoming quantity, and that side is left as it
  was: the unmatched remainder is dropped.
\<close>

theorem conservation_or_dropped_remainder:
  assumes "submit_order b p q oid bid = Some (Inr (b', ts))"
  shows "let own = (if bid then bids b else asks b);
             own' = (if bid then bids b' else asks b')
         in (unat q = trade_volume ts + unat (newly_rested b b' bid) \<and>
             (submit_all OrderBook_init [] subs = Some (Inr (b, all_trades)) \<longrightarrow>
                unat q + resting_volume own = trade_volume ts + resting_volume own' \<and>
                (newly_rested b b' bid = 0 \<or>
                 \<lparr>order_id = oid, order_price = p, order_quantity = newly_rested b b' bid,
                   order_next = None\<rparr> \<in> set (resting own')))) \<or>
            (next_free (side_pool own) = None \<and> trade_volume ts < unat q \<and> own' = own)"
proof -
  define own where "own = (if bid then bids b else asks b)"
  define own' where "own' = (if bid then bids b' else asks b')"
  define opp where "opp = (if bid then asks b else bids b)"
  have nr: "newly_rested b b' bid = side_total own' - side_total own"
    by (simp add: newly_rested_def own_def own'_def)
  have ok: "side_ok own" if "submit_all OrderBook_init [] subs = Some (Inr (b, all_trades))"
    using submit_all_ok [OF book_ok_init that] by (simp add: book_ok_def own_def)
  have same: "unat q = trade_volume ts + unat (newly_rested b b' bid) \<and>
      (submit_all OrderBook_init [] subs = Some (Inr (b, all_trades)) \<longrightarrow>
         unat q + resting_volume own = trade_volume ts + resting_volume own' \<and>
         (newly_rested b b' bid = 0 \<or>
          \<lparr>order_id = oid, order_price = p, order_quantity = newly_rested b b' bid,
            order_next = None\<rparr> \<in> set (resting own')))"
    if "own' = own" "unat q = trade_volume ts"
    using that by (simp add: nr)
  have "(unat q = trade_volume ts + unat (newly_rested b b' bid) \<and>
             (submit_all OrderBook_init [] subs = Some (Inr (b, all_trades)) \<longrightarrow>
                unat q + resting_volume own = trade_volume ts + resting_volume own' \<and>
                (newly_rested b b' bid = 0 \<or>
                 \<lparr>order_id = oid, order_price = p, order_quantity = newly_rested b b' bid,
                   order_next = None\<rparr> \<in> set (resting own')))) \<or>
            (next_free (side_pool own) = None \<and> trade_volume ts < unat q \<and> own' = own)"
  proof (cases "q = 0")
    case True
    with assms have "own' = own" "unat q = trade_volume ts"
      by (simp_all add: submit_order_def own_def own'_def)
    then show ?thesis
      by (intro disjI1 same)
  next
    case False
    from assms False obtain opp' remaining
      where m: "match_orders bid opp p q oid [] = Some (Inr (opp', remaining, ts))"
      by (auto simp: submit_order_def match_buy_def match_sell_def opp_def
          split: option.splits sum.splits if_splits)
    from match_orders_conserves [OF m] have vol: "unat q = unat remaining + trade_volume ts"
      by auto
    show ?thesis
    proof (cases "remaining = 0")
      case True
      with assms False m have "own' = own"
        by (auto simp: submit_order_def match_buy_def match_sell_def opp_def own_def own'_def
            split: option.splits sum.splits if_splits)
      moreover from vol True have "unat q = trade_volume ts"
        by simp
      ultimately show ?thesis
        by (intro disjI1 same)
    next
      case rem: False
      then have pos: "0 < remaining" "0 < unat remaining"
        by (simp_all add: word_gt_0 unat_gt_0)
      with assms False m obtain r where a: "add_order own p remaining oid = Inr (r, own')"
        by (auto simp: submit_order_def match_buy_def match_sell_def opp_def own_def own'_def
            split: option.splits sum.splits if_splits)
      from add_order_result [OF a] show ?thesis
      proof
        assume "next_free (side_pool own) = None \<and> r = None \<and> own' = own"
        with vol pos(2) show ?thesis
          by simp
      next
        assume some: "next_free (side_pool own) \<noteq> None \<and> r = next_free (side_pool own) \<and>
          side_total own' = side_total own + remaining"
        then obtain x where r: "r = Some x"
          by auto
        from some have nr': "newly_rested b b' bid = remaining"
          by (simp add: nr)
        have "unat q + resting_volume own = trade_volume ts + resting_volume own' \<and>
            \<lparr>order_id = oid, order_price = p, order_quantity = remaining, order_next = None\<rparr>
              \<in> set (resting own')"
          if "submit_all OrderBook_init [] subs = Some (Inr (b, all_trades))"
          using add_order_volume [OF ok [OF that] rem a [unfolded r]] vol by simp
        with vol nr' show ?thesis
          by simp
      qed
    qed
  qed
  then show ?thesis
    by (simp add: Let_def own_def own'_def)
qed

theorem conservation_or_dropped_remainder_witness:
  "unat (15 :: size_t) =
     trade_volume [\<lparr>taker_order_id = 2, maker_order_id = 1, price = 901, quantity = 10\<rparr>] +
     unat (newly_rested order_test_2 partly_rested False) \<and>
   unat (15 :: size_t) + resting_volume (asks order_test_2) =
     trade_volume [\<lparr>taker_order_id = 2, maker_order_id = 1, price = 901, quantity = 10\<rparr>] +
     resting_volume (asks partly_rested) \<and>
   resting (asks partly_rested) =
     [\<lparr>order_id = 2, order_price = 901, order_quantity = 5, order_next = None\<rparr>]"
proof -
  have "next_free (side_pool (asks order_test_2)) = Some 0"
    by (simp add: order_test_2_def book_defs)
  with conservation_or_dropped_remainder [OF partly_rested_step,
      of "[(900, 20, 0, True), (901, 10, 1, True)]" "[]"] order_test_first_two
  show ?thesis
    by (simp add: Let_def resting_partly)
qed

section \<open>Capacity exhausted\<close>

text \<open>
  C6. When the pool of the submitter's side has no free slot, the price is on the ladder
  and matching leaves a remainder, \<open>add_order\<close> returns \<open>nullptr\<close> and the side as it was
  (levels, aggregates, cursor and pool), and \<open>submit_order\<close> returns exactly the trades of
  the matching phase, with the opposite side as matching left it.
\<close>

theorem capacity_exhausted_keeps_trades:
  assumes "next_free (side_pool (if bid then bids b else asks b)) = None"
    and "PRICE_MIN \<le> p" and "p \<le> PRICE_MAX"
    and "(if bid then match_buy (asks b) p q oid [] else match_sell (bids b) p q oid []) =
           Some (Inr (opp', remaining, ts))"
    and "0 < remaining"
  shows "add_order (if bid then bids b else asks b) p remaining oid =
           Inr (None, if bid then bids b else asks b) \<and>
         submit_order b p q oid bid =
           Some (Inr (if bid then b\<lparr>asks := opp'\<rparr> else b\<lparr>bids := opp'\<rparr>, ts))"
proof -
  have a: "add_order (if bid then bids b else asks b) p remaining oid =
           Inr (None, if bid then bids b else asks b)"
    using assms(1,2,3) by (rule add_order_exhausted)
  have "q \<noteq> 0"
  proof
    assume "q = 0"
    with assms(4) have "remaining = 0"
      by (auto simp: match_buy_def match_sell_def match_orders_done split: if_splits)
    with assms(5) show False
      by simp
  qed
  with assms(4,5) a show ?thesis
    by (auto simp: submit_order_def split: if_splits)
qed

theorem capacity_exhausted_keeps_trades_witness:
  "submit_order crowded_book 950 15 9 True =
     Some (Inr (crowded_book\<lparr>asks := fst (fill_step True 150 0 (asks crowded_book) 15 9 [])\<rparr>,
                [\<lparr>taker_order_id = 9, maker_order_id = 8, price = 950, quantity = 10\<rparr>]))"
proof -
  have m: "match_buy (asks crowded_book) 950 15 9 [] =
      Some (Inr (fst (fill_step True 150 0 (asks crowded_book) 15 9 []), 5,
                 [\<lparr>taker_order_id = 9, maker_order_id = 8, price = 950, quantity = 10\<rparr>]))"
    by (simp add: step_defs crowded_book_def book_defs scan_up.simps)
  have "next_free (side_pool (bids crowded_book)) = None"
    by (simp add: crowded_book_def bids_at_900_def)
  with capacity_exhausted_keeps_trades [of True crowded_book 950 15 9
      "fst (fill_step True 150 0 (asks crowded_book) 15 9 [])" 5
      "[\<lparr>taker_order_id = 9, maker_order_id = 8, price = 950, quantity = 10\<rparr>]"] m
  show ?thesis
    by (simp add: PRICE_MIN_def PRICE_MAX_def)
qed

section \<open>Prices outside the ladder\<close>

text \<open>
  C5. The price 5000 is outside \<open>[PRICE_MIN, PRICE_MAX]\<close>: \<open>price_to_index\<close> fails its
  assertion on it. With one ask of 10 resting at 900, \<open>submit_order\<close> of a bid at 5000 for 5
  returns normally with a trade and a changed ask side; for 15 it trades 10, empties the
  ask level, and only then stops at the assertion of \<open>add_order\<close>.
\<close>

theorem out_of_range_price_is_matched:
  "price_to_index 5000 = Inl AssertionFailed \<and>
   (case submit_all OrderBook_init [] [(900, 10, 0, False)] of
      Some (Inr (b, _)) \<Rightarrow>
        total_quantity (levels (asks b) 100) = 10 \<and>
        (case submit_order b 5000 5 1 True of
           Some (Inr (b', ts)) \<Rightarrow>
             ts = [\<lparr>taker_order_id = 1, maker_order_id = 0, price = 900, quantity = 5\<rparr>] \<and>
             total_quantity (levels (asks b') 100) = 5
         | _ \<Rightarrow> False) \<and>
        (case submit_order b 5000 15 1 True of
           Some (Inl (e, b', ts)) \<Rightarrow>
             e = AssertionFailed \<and>
             ts = [\<lparr>taker_order_id = 1, maker_order_id = 0, price = 900, quantity = 10\<rparr>] \<and>
             level_first (levels (asks b') 100) = None \<and>
             best_price_index (asks b') = NUM_LEVELS
         | _ \<Rightarrow> False)
    | _ \<Rightarrow> False)"
  by code_simp

section \<open>Aggregates that wrap around\<close>

text \<open>
  C7. After two bids of \<open>2^63\<close> at 900 the aggregate of the level is 0, while its queue
  holds both orders.
\<close>

theorem aggregate_wraps_to_zero:
  "case submit_all OrderBook_init [] [(900, 2 ^ 63, 0, True), (900, 2 ^ 63, 1, True)] of
     Some (Inr (b, _)) \<Rightarrow>
       total_quantity (levels (bids b) 100) = 0 \<and>
       level_first (levels (bids b) 100) = Some 0 \<and>
       map order_quantity (level_orders (bids b) 100) = [2 ^ 63, 2 ^ 63]
   | _ \<Rightarrow> False"
  by code_simp

text \<open>
  C2. After two bids of \<open>2^63\<close> at 900, a bid of 1 at 901 and an ask that fills it, the
  bid cursor is \<open>NUM_LEVELS\<close> while orders 0 and 1 rest at 900: an ask at 800 then trades
  with nothing and rests below them. After two more bids of \<open>2^63\<close> at 899 the cursor is
  at the level of 899, whose aggregate is 0, below the orders at 900.
\<close>

theorem cursor_loses_wrapped_level:
  "case submit_all OrderBook_init []
          [(900, 2 ^ 63, 0, True), (900, 2 ^ 63, 1, True), (901, 1, 2, True), (800, 1, 3, False)] of
     Some (Inr (b, _)) \<Rightarrow>
       best_price_index (bids b) = NUM_LEVELS \<and>
       map order_id (level_orders (bids b) 100) = [0, 1] \<and>
       (case submit_order b 800 5 4 False of
          Some (Inr (b', ts)) \<Rightarrow> ts = [] \<and> map order_id (level_orders (asks b') 0) = [4]
        | _ \<Rightarrow> False) \<and>
       (case submit_all b [] [(899, 2 ^ 63, 4, True), (899, 2 ^ 63, 5, True)] of
          Some (Inr (b', _)) \<Rightarrow>
            best_price_index (bids b') = 99 \<and>
            total_quantity (levels (bids b') 99) = 0 \<and>
            map order_id (level_orders (bids b') 100) = [0, 1]
        | _ \<Rightarrow> False)
   | _ \<Rightarrow> False"
  by code_simp

section \<open>Termination of matching\<close>

text \<open>
  C10. In every book reached by submissions from the empty book, every order that rests on
  either side has quantity at least 1; \<open>match_buy\<close> on the ask side and \<open>match_sell\<close> on the
  bid side return, without a fault, for every price, quantity, id and trade list; and every
  \<open>submit_order\<close> returns, each of its trades having quantity at least 1 (so each trade
  strictly decreases the incoming quantity).
\<close>

theorem matching_terminates:
  assumes "submit_all OrderBook_init [] subs = Some (Inr (b, all_trades))"
  shows "(\<forall>ord\<in>set (resting (bids b)) \<union> set (resting (asks b)). 1 \<le> order_quantity ord) \<and>
         (\<forall>p q oid ts.
            (\<exists>s' remaining ts'. match_buy (asks b) p q oid ts = Some (Inr (s', remaining, ts'))) \<and>
            (\<exists>s' remaining ts'. match_sell (bids b) p q oid ts = Some (Inr (s', remaining, ts')))) \<and>
         (\<forall>p q oid bid. \<exists>r. submit_order b p q oid bid = Some r \<and>
            (\<forall>t\<in>set (trades_of r). 1 \<le> quantity t))"
proof -
  from submit_all_ok [OF book_ok_init assms] have ok: "book_ok b" .
  then have sides: "side_ok (bids b)" "side_ok (asks b)"
    by (simp_all add: book_ok_def)
  have "1 \<le> order_quantity ord" if "ord \<in> set (resting (bids b)) \<union> set (resting (asks b))" for ord
    using that sides by (auto intro: resting_quantity)
  moreover have "\<exists>s' remaining ts'. match_buy (asks b) p q oid ts = Some (Inr (s', remaining, ts'))"
    for p q oid ts
    using match_orders_ok [OF sides(2), of True p q oid ts] unfolding match_buy_def by blast
  moreover have "\<exists>s' remaining ts'. match_sell (bids b) p q oid ts = Some (Inr (s', remaining, ts'))"
    for p q oid ts
    using match_orders_ok [OF sides(1), of False p q oid ts] unfolding match_sell_def by blast
  moreover have "\<exists>r. submit_order b p q oid bid = Some r \<and> (\<forall>t\<in>set (trades_of r). 1 \<le> quantity t)"
    for p q oid bid
    using submit_order_ok [OF ok, of p q oid bid] by (auto simp: good_trade_def word_ge_1)
  ultimately show ?thesis
    by blast
qed

theorem matching_terminates_witness:
  "1 \<le> order_quantity
          \<lparr>order_id = 1, order_price = 901, order_quantity = 10, order_next = None\<rparr> \<and>
   (\<exists>s' remaining ts'.
      match_sell (bids order_test_2) 900 15 2 [] = Some (Inr (s', remaining, ts')))"
  using matching_terminates [OF order_test_first_two]
  by (simp add: resting_2)

section \<open>Trades at the maker's price\<close>

text \<open>
  C4. In every book reached by submissions from the empty book, every trade that a
  submission emits (also one emitted before the call stops at a fault) has the submitted id
  as taker, the id and the price of an order resting on the opposite side before the call,
  and a price that crosses: at most the incoming price for a bid, at least the incoming
  price for an ask.
\<close>

theorem trades_at_maker_price:
  assumes "submit_all OrderBook_init [] subs = Some (Inr (b, all_trades))"
    and "submit_order b p q oid bid = Some r"
    and "t \<in> set (trades_of r)"
  shows "taker_order_id t = oid \<and>
         (\<exists>ord\<in>set (resting (if bid then asks b else bids b)).
            order_id ord = maker_order_id t \<and> order_price ord = price t) \<and>
         (if bid then price t \<le> p else p \<le> price t)"
proof -
  from submit_all_ok [OF book_ok_init assms(1)] have "book_ok b" .
  from submit_order_ok [OF this, of p q oid bid] assms(2,3)
  have "good_trade (pool (side_pool (if bid then asks b else bids b)))
          (queue (if bid then asks b else bids b)) bid p oid t"
    by auto
  from good_trade_resting [OF this] show ?thesis
    by simp
qed

theorem trades_at_maker_price_witness:
  "(\<exists>ord. ord \<in> set (resting (bids order_test_2)) \<and> order_id ord = 1 \<and> order_price ord = 901) \<and>
   (900 :: size_t) \<le> 901"
  using trades_at_maker_price [OF order_test_first_two order_test_step3,
      of "\<lparr>taker_order_id = 2, maker_order_id = 1, price = 901, quantity = 10\<rparr>"]
  by (auto simp: trades_of_def)

end
